theory Spec2Isabelle
  imports Main "HOL-Library.Multiset"
begin

section \<open>autofix.js: applying ShellCheck fixes to a text\<close>

text \<open>
  A shallow embedding of \<^verbatim>\<open>src/autofix.js\<close>. JavaScript numbers that the program
  uses as offsets, line and column numbers, precedences and length deltas are modelled
  as \<open>int\<close>; strings are lists of characters (one \<open>char\<close> per UTF-16 code unit, so
  \<open>length\<close> is the \<^verbatim>\<open>.length\<close> of the source). A thrown exception is a value of type
  \<open>error\<close>; an operation on the fixer object returns the object after the call together
  with its outcome.
\<close>

subsection \<open>PrefixSumTree\<close>

text \<open>
  A node is the object \<^verbatim>\<open>{pivot, sumLeft, left, right}\<close>; an absent child is \<open>None\<close>.
\<close>

datatype node = Node (pivot: int) (sumLeft: int) (left: "node option") (right: "node option")

text \<open>\<^verbatim>\<open>insert(node, point, value)\<close>: the do-while walk down the tree, rebuilding the path.\<close>

fun insert_node :: "node \<Rightarrow> int \<Rightarrow> int \<Rightarrow> node" where
  "insert_node (Node pv s l r) point v =
     (if point < pv then
        (case l of
           None \<Rightarrow> Node pv (s + v) (Some (Node point v None None)) r
         | Some n \<Rightarrow> Node pv (s + v) (Some (insert_node n point v)) r)
      else if point > pv then
        (case r of
           None \<Rightarrow> Node pv s l (Some (Node point v None None))
         | Some n \<Rightarrow> Node pv s l (Some (insert_node n point v)))
      else Node pv (s + v) l r)"

text \<open>
  \<^verbatim>\<open>lookup(node, point)\<close>: the loop carries its \<^verbatim>\<open>sum\<close> (here \<open>sm\<close>) and stops when \<open>node\<close> becomes
  falsy (an absent child, or \<open>null\<close> after a hit).
\<close>

fun lookup_node :: "node \<Rightarrow> int \<Rightarrow> int \<Rightarrow> int" where
  "lookup_node (Node pv s l r) point sm =
     (if point < pv then
        (case l of None \<Rightarrow> sm | Some n \<Rightarrow> lookup_node n point sm)
      else if point > pv then
        (case r of None \<Rightarrow> sm + s | Some n \<Rightarrow> lookup_node n point (sm + s))
      else sm + s)"

text \<open>The object returned by \<^verbatim>\<open>PrefixSumTree()\<close>: its only state is the field \<open>tree\<close>.\<close>

definition PrefixSumTree :: node where
  "PrefixSumTree = Node 0 0 None None"

definition tree_insert :: "node \<Rightarrow> int \<Rightarrow> int \<Rightarrow> node" where
  "tree_insert t point v = insert_node t point v"

definition tree_lookup :: "node \<Rightarrow> int \<Rightarrow> int" where
  "tree_lookup t point = lookup_node t point 0"

definition tree_reset :: "node \<Rightarrow> node" where
  "tree_reset t = Node 0 0 None None"

text \<open>A sequence of \<^verbatim>\<open>insert(point, delta)\<close> calls, oldest first.\<close>

fun inserts :: "node \<Rightarrow> (int \<times> int) list \<Rightarrow> node" where
  "inserts t [] = t"
| "inserts t ((point, delta) # ops) = inserts (tree_insert t point delta) ops"

text \<open>The sum of the deltas of the inserted points that are at most \<open>p\<close>.\<close>

definition deltas_upto :: "(int \<times> int) list \<Rightarrow> int \<Rightarrow> int" where
  "deltas_upto ops p = sum_list (map snd (filter (\<lambda>(point, delta). point \<le> p) ops))"

subsection \<open>Strings and arrays of the host language\<close>

text \<open>\<^verbatim>\<open>xs[i]\<close>: \<open>undefined\<close> (here \<open>None\<close>) outside the array.\<close>

definition js_index :: "'a list \<Rightarrow> int \<Rightarrow> 'a option" where
  "js_index xs i = (if 0 \<le> i \<and> i < int (length xs) then Some (xs ! nat i) else None)"

text \<open>
  \<^verbatim>\<open>String.prototype.substring\<close> clamps both indices to \<open>[0, length]\<close> and swaps them
  when the first is the larger one; with one argument the end is the length.
\<close>

definition clamp :: "int \<Rightarrow> nat \<Rightarrow> nat" where
  "clamp i n = (if i < 0 then 0 else min (nat i) n)"

definition substring :: "string \<Rightarrow> int \<Rightarrow> int \<Rightarrow> string" where
  "substring s a b =
     (let x = clamp a (length s); y = clamp b (length s)
      in take (max x y - min x y) (drop (min x y) s))"

definition substring_from :: "string \<Rightarrow> int \<Rightarrow> string" where
  "substring_from s a = substring s a (int (length s))"

text \<open>\<^verbatim>\<open>s.split(sep)\<close> for a one-character separator: never the empty array.\<close>

fun split :: "char \<Rightarrow> string \<Rightarrow> string list" where
  "split sep [] = [[]]"
| "split sep (c # cs) =
     (if c = sep then [] # split sep cs
      else (case split sep cs of
              [] \<Rightarrow> [[c]]
            | l # ls \<Rightarrow> (c # l) # ls))"

definition newline :: char where
  "newline = CHR 0x0A"

definition tab :: char where
  "tab = CHR 0x09"

subsection \<open>Fixes, candidates and the fixer object\<close>

datatype error = TypeError | Error string | NotANumber

text \<open>
  One element of \<^verbatim>\<open>fix.replacements\<close> as ShellCheck's JSON gives it: the fields
  \<^verbatim>\<open>line\<close>, \<^verbatim>\<open>column\<close>, \<^verbatim>\<open>endLine\<close>, \<^verbatim>\<open>endColumn\<close>, \<^verbatim>\<open>precedence\<close>, \<^verbatim>\<open>insertionPoint\<close>
  and \<^verbatim>\<open>replacement\<close>.
\<close>

record replacement =
  r_line :: int
  r_column :: int
  r_endLine :: int
  r_endColumn :: int
  r_precedence :: int
  r_insertionPoint :: string
  r_replacement :: string

text \<open>
  What \<^verbatim>\<open>applyFix\<close> is handed: a falsy value (\<open>None\<close>), or an object that may have a
  truthy field \<^verbatim>\<open>fix\<close> (a comment) and may have a field \<^verbatim>\<open>replacements\<close> (a bare fix);
  \<open>None\<close> for a field is \<open>undefined\<close>.
\<close>

datatype fix_object = Fix (fix_replacements: "replacement list option")

datatype item = Item (item_fix: "fix_object option") (item_replacements: "replacement list option")

text \<open>
  The object \<^verbatim>\<open>applyFix\<close> builds for a replacement: the fields \<^verbatim>\<open>start\<close>, \<^verbatim>\<open>end\<close>,
  \<^verbatim>\<open>startLine\<close>, \<^verbatim>\<open>endLine\<close>, \<^verbatim>\<open>precedence\<close>, \<^verbatim>\<open>point\<close> and \<^verbatim>\<open>text\<close>.
\<close>

record candidate =
  c_start :: int
  c_end :: int
  c_startLine :: int
  c_endLine :: int
  c_precedence :: int
  c_point :: string
  c_text :: string

text \<open>
  The object \<^verbatim>\<open>AutoFixer(file)\<close> returns: the fields \<^verbatim>\<open>_file\<close>, \<^verbatim>\<open>_lines\<close>,
  \<^verbatim>\<open>_lineOffsets\<close> and \<^verbatim>\<open>_replacements\<close>.
\<close>

record fixer =
  f_file :: string
  f_lines :: "string list"
  f_lineOffsets :: "int list"
  f_replacements :: "candidate list"

record fixes_result =
  applied :: "item option list"
  rejected :: "item option list"

subsection \<open>Line offsets and tab stops\<close>

text \<open>
  \<^verbatim>\<open>getLineOffsets(lines)\<close>: the loop writes \<^verbatim>\<open>offsets[i]\<close> for \<open>i = 0, 1, ...\<close>, each
  write extending the array by one; after the loop one more entry is written.
\<close>

fun getLineOffsets_loop :: "string list \<Rightarrow> int \<Rightarrow> int list \<Rightarrow> int list" where
  "getLineOffsets_loop [] sm offsets = offsets @ [sm]"
| "getLineOffsets_loop (l # ls) sm offsets =
     getLineOffsets_loop ls (sm + (int (length l) + 1)) (offsets @ [sm])"

definition getLineOffsets :: "string list \<Rightarrow> int list" where
  "getLineOffsets lines = getLineOffsets_loop lines 0 []"

text \<open>
  The loop of \<^verbatim>\<open>adjustTabStops\<close> over the rest of the line, from index \<open>i\<close> with the
  logical column \<open>logical\<close> reached so far.
\<close>

fun adjustTabStops_loop :: "string \<Rightarrow> int \<Rightarrow> int \<Rightarrow> int \<Rightarrow> int" where
  "adjustTabStops_loop [] columnNo logical i = i + 1"
| "adjustTabStops_loop (ch # rest) columnNo logical i =
     (let logical' = (if ch = tab then logical + (8 - logical mod 8) else logical + 1)
      in if columnNo \<le> logical' then i + 1
         else adjustTabStops_loop rest columnNo logical' (i + 1))"

text \<open>Reading \<^verbatim>\<open>line.length\<close> of an \<open>undefined\<close> line throws a TypeError.\<close>

definition adjustTabStops :: "fixer \<Rightarrow> int \<Rightarrow> int \<Rightarrow> error + int" where
  "adjustTabStops this lineNo columnNo =
     (case js_index (f_lines this) (lineNo - 1) of
        None \<Rightarrow> Inl TypeError
      | Some line \<Rightarrow> Inr (adjustTabStops_loop line columnNo 0 0))"

text \<open>
  \<^verbatim>\<open>getOffsetFor(line, col)\<close>. With \<^verbatim>\<open>_lineOffsets[line-1]\<close> undefined the sum would be
  \<open>NaN\<close>; the model stops there with \<open>NotANumber\<close>. No object built by \<^verbatim>\<open>AutoFixer\<close>
  gets there, since its \<^verbatim>\<open>_lineOffsets\<close> is longer than its \<^verbatim>\<open>_lines\<close>.
\<close>

definition getOffsetFor :: "fixer \<Rightarrow> int \<Rightarrow> int \<Rightarrow> error + int" where
  "getOffsetFor this ln col =
     (case adjustTabStops this ln col of
        Inl e \<Rightarrow> Inl e
      | Inr a \<Rightarrow>
          (case js_index (f_lineOffsets this) (ln - 1) of
             None \<Rightarrow> Inl NotANumber
           | Some off \<Rightarrow> Inr (off + a - 1)))"

subsection \<open>applyFix and applyFixes\<close>

text \<open>The conflict test of \<^verbatim>\<open>applyFix\<close>.\<close>

definition overlaps :: "candidate \<Rightarrow> candidate \<Rightarrow> bool" where
  "overlaps cand existing = (c_end cand > c_start existing \<and> c_end existing > c_start cand)"

definition build_candidate :: "fixer \<Rightarrow> replacement \<Rightarrow> error + candidate" where
  "build_candidate this rep =
     (case getOffsetFor this (r_line rep) (r_column rep) of
        Inl e \<Rightarrow> Inl e
      | Inr s \<Rightarrow>
          (case getOffsetFor this (r_endLine rep) (r_endColumn rep) of
             Inl e \<Rightarrow> Inl e
           | Inr e \<Rightarrow>
               Inr \<lparr>c_start = s, c_end = e, c_startLine = r_line rep,
                    c_endLine = r_endLine rep, c_precedence = r_precedence rep,
                    c_point = r_insertionPoint rep, c_text = r_replacement rep\<rparr>))"

text \<open>
  The loop over \<^verbatim>\<open>fix.replacements\<close>: \<open>Inr None\<close> is the \<^verbatim>\<open>return false\<close> inside it,
  \<open>Inr (Some candidates)\<close> its normal end.
\<close>

fun applyFix_loop :: "fixer \<Rightarrow> replacement list \<Rightarrow> candidate list \<Rightarrow> error + candidate list option" where
  "applyFix_loop this [] candidates = Inr (Some candidates)"
| "applyFix_loop this (rep # reps) candidates =
     (case build_candidate this rep of
        Inl e \<Rightarrow> Inl e
      | Inr cand \<Rightarrow>
          if list_ex (overlaps cand) (f_replacements this) then Inr None
          else applyFix_loop this reps (candidates @ [cand]))"

text \<open>The replacements \<^verbatim>\<open>applyFix\<close> finds in an item: those of \<^verbatim>\<open>item.fix\<close> if that is there.\<close>

definition replacements_of :: "item \<Rightarrow> replacement list option" where
  "replacements_of it =
     (case item_fix it of Some f \<Rightarrow> fix_replacements f | None \<Rightarrow> item_replacements it)"

definition applyFix :: "fixer \<Rightarrow> item option \<Rightarrow> fixer \<times> (error + bool)" where
  "applyFix this item =
     (case item of
        None \<Rightarrow> (this, Inr False)
      | Some it \<Rightarrow>
          (case replacements_of it of
             None \<Rightarrow> (this, Inr False)
           | Some reps \<Rightarrow>
               (case applyFix_loop this reps [] of
                  Inl e \<Rightarrow> (this, Inl e)
                | Inr None \<Rightarrow> (this, Inr False)
                | Inr (Some candidates) \<Rightarrow>
                    (this\<lparr>f_replacements := f_replacements this @ candidates\<rparr>, Inr True))))"

fun applyFixes_loop :: "fixer \<Rightarrow> item option list \<Rightarrow> fixes_result \<Rightarrow> fixer \<times> (error + fixes_result)" where
  "applyFixes_loop this [] result = (this, Inr result)"
| "applyFixes_loop this (fx # fixlist) result =
     (case applyFix this fx of
        (this', Inl e) \<Rightarrow> (this', Inl e)
      | (this', Inr True) \<Rightarrow>
          applyFixes_loop this' fixlist (result\<lparr>applied := applied result @ [fx]\<rparr>)
      | (this', Inr False) \<Rightarrow>
          applyFixes_loop this' fixlist (result\<lparr>rejected := rejected result @ [fx]\<rparr>))"

definition applyFixes :: "fixer \<Rightarrow> item option list \<Rightarrow> fixer \<times> (error + fixes_result)" where
  "applyFixes this fixlist = applyFixes_loop this fixlist \<lparr>applied = [], rejected = []\<rparr>"

subsection \<open>Rendering\<close>

text \<open>
  \<^verbatim>\<open>applyReplacement(file, tree, rep)\<close> returns the new file; the tree it was handed is
  updated in place, so the model returns it too.
\<close>

definition applyReplacement :: "string \<Rightarrow> node \<Rightarrow> candidate \<Rightarrow> error + (string \<times> node)" where
  "applyReplacement file tree rep =
     (let from = c_start rep + tree_lookup tree (c_start rep);
          to = c_end rep + tree_lookup tree (c_end rep);
          file' = substring file 0 from @ c_text rep @ substring_from file to
      in if c_point rep = ''beforeStart'' then
           Inr (file', tree_insert tree (c_start rep) (int (length (c_text rep)) - (to - from)))
         else if c_point rep = ''afterEnd'' then
           Inr (file', tree_insert tree (c_end rep + 1) (int (length (c_text rep)) - (to - from)))
         else Inl (Error (''Unrecognized insertion point '' @ c_point rep)))"

text \<open>
  \<^verbatim>\<open>this._replacements.sort(function (a,b) { return b.precedence - a.precedence; })\<close>:
  descending precedence; \<^verbatim>\<open>Array.prototype.sort\<close> is stable, as \<open>sort_key\<close> is.
\<close>

definition sort_replacements :: "candidate list \<Rightarrow> candidate list" where
  "sort_replacements reps = sort_key (\<lambda>c. - c_precedence c) reps"

text \<open>The loop of \<^verbatim>\<open>getResult\<close> over \<^verbatim>\<open>[...this._replacements].reverse()\<close>.\<close>

fun getResult_loop :: "string \<Rightarrow> node \<Rightarrow> candidate list \<Rightarrow> error + (string \<times> node)" where
  "getResult_loop file tree [] = Inr (file, tree)"
| "getResult_loop file tree (rep # reps) =
     (case applyReplacement file tree rep of
        Inl e \<Rightarrow> Inl e
      | Inr (file', tree') \<Rightarrow> getResult_loop file' tree' reps)"

definition getResult :: "fixer \<Rightarrow> fixer \<times> (error + string)" where
  "getResult this =
     (let this' = this\<lparr>f_replacements := sort_replacements (f_replacements this)\<rparr>
      in (this',
          case getResult_loop (f_file this') PrefixSumTree (rev (f_replacements this')) of
            Inl e \<Rightarrow> Inl e
          | Inr (file, tree) \<Rightarrow> Inr file))"

text \<open>The loop of \<^verbatim>\<open>getSnippet\<close>, which also tracks \<^verbatim>\<open>minLine\<close> and \<^verbatim>\<open>maxLine\<close>.\<close>

fun getSnippet_loop ::
  "string \<Rightarrow> node \<Rightarrow> int \<Rightarrow> int \<Rightarrow> candidate list \<Rightarrow> error + (string \<times> node \<times> int \<times> int)" where
  "getSnippet_loop file tree minLine maxLine [] = Inr (file, tree, minLine, maxLine)"
| "getSnippet_loop file tree minLine maxLine (rep # reps) =
     (case applyReplacement file tree rep of
        Inl e \<Rightarrow> Inl e
      | Inr (file', tree') \<Rightarrow>
          getSnippet_loop file' tree' (min minLine (c_startLine rep))
            (max maxLine (c_endLine rep)) reps)"

text \<open>
  \<^verbatim>\<open>getSnippet()\<close>. An \<open>undefined\<close> \<^verbatim>\<open>startOffset\<close> is read by \<^verbatim>\<open>substring\<close> as 0; an
  \<open>undefined\<close> \<^verbatim>\<open>endOffset\<close> becomes \<open>NaN\<close> in the addition and is read as 0 too.
\<close>

definition getSnippet :: "fixer \<Rightarrow> fixer \<times> (error + string)" where
  "getSnippet this =
     (if length (f_replacements this) = 0 then
        (this, Inl (Error ''No fixes have been applied.''))
      else
        (let this' = this\<lparr>f_replacements := sort_replacements (f_replacements this)\<rparr>
         in (this',
             case getSnippet_loop (f_file this') PrefixSumTree
                    (c_startLine (f_replacements this' ! 0))
                    (c_endLine (f_replacements this' ! 0))
                    (rev (f_replacements this')) of
               Inl e \<Rightarrow> Inl e
             | Inr (file, tree, minLine, maxLine) \<Rightarrow>
                 (let startOffset =
                        (case js_index (f_lineOffsets this') (minLine - 1) of
                           None \<Rightarrow> 0 | Some off \<Rightarrow> off);
                      endOffset =
                        (case js_index (f_lineOffsets this') maxLine of
                           None \<Rightarrow> 0 | Some off \<Rightarrow> off + tree_lookup tree off)
                  in Inr (substring file startOffset endOffset)))))"

subsection \<open>The constructor and the remaining methods\<close>

definition AutoFixer :: "string \<Rightarrow> fixer" where
  "AutoFixer file =
     (let lines = split newline file
      in \<lparr>f_file = file, f_lines = lines, f_lineOffsets = getLineOffsets lines,
          f_replacements = []\<rparr>)"

definition hasModifications :: "fixer \<Rightarrow> bool" where
  "hasModifications this = (length (f_replacements this) > 0)"

definition reset :: "fixer \<Rightarrow> fixer" where
  "reset this = this\<lparr>f_replacements := []\<rparr>"

subsection \<open>Notions the properties are stated with\<close>

text \<open>The characters a line takes up in the file, its newline included.\<close>

definition line_size :: "string \<Rightarrow> int" where
  "line_size l = int (length l) + 1"

text \<open>
  No two candidates of a list, taken at different positions, overlap. The conflict test
  is symmetric, so testing each candidate against the later ones is enough.
\<close>

definition pairwise_disjoint :: "candidate list \<Rightarrow> bool" where
  "pairwise_disjoint cs = sorted_wrt (\<lambda>a b. \<not> overlaps a b) cs"

text \<open>
  The candidates of different groups do not overlap; a group is what one accepted
  fix added.
\<close>

definition groups_disjoint :: "candidate list list \<Rightarrow> bool" where
  "groups_disjoint gs =
     sorted_wrt (\<lambda>g h. list_all (\<lambda>a. list_all (\<lambda>b. \<not> overlaps a b) h) g) gs"

text \<open>
  The states a fixer object goes through, each with the groups of candidates that the
  accepted fixes have added since the object was created or last reset. A call of
  \<^verbatim>\<open>applyFix\<close> that returns true adds one group; a call that returns false or throws adds
  none. \<^verbatim>\<open>applyFixes\<close> only calls \<^verbatim>\<open>applyFix\<close>, one item after the other.
\<close>

inductive reach :: "fixer \<Rightarrow> candidate list list \<Rightarrow> bool" where
  created: "reach (AutoFixer file) []"
| accepted: "reach this gs \<Longrightarrow> applyFix this item = (this', Inr True) \<Longrightarrow>
     reach this' (gs @ [drop (length (f_replacements this)) (f_replacements this')])"
| not_accepted: "reach this gs \<Longrightarrow> applyFix this item = (this', r) \<Longrightarrow> r \<noteq> Inr True \<Longrightarrow>
     reach this' gs"
| was_reset: "reach this gs \<Longrightarrow> reach (reset this) []"
| result_rendered: "reach this gs \<Longrightarrow> reach (fst (getResult this)) gs"
| snippet_rendered: "reach this gs \<Longrightarrow> reach (fst (getSnippet this)) gs"

text \<open>
  The length of the span \<open>[start, end)\<close> of the original text that a candidate
  replaces, and the candidate's change of length.
\<close>

definition replaced_span :: "string \<Rightarrow> candidate \<Rightarrow> string" where
  "replaced_span file c = substring file (c_start c) (c_end c)"

definition length_change :: "string \<Rightarrow> candidate \<Rightarrow> int" where
  "length_change file c = int (length (c_text c)) - int (length (replaced_span file c))"

text \<open>The length law of \<^verbatim>\<open>getResult\<close>: it returns a text, and of this length.\<close>

definition length_law :: "fixer \<Rightarrow> bool" where
  "length_law this =
     (case snd (getResult this) of
        Inl e \<Rightarrow> False
      | Inr res \<Rightarrow>
          int (length res) =
            int (length (f_file this)) +
            sum_list (map (length_change (f_file this)) (f_replacements this)))"

text \<open>
  A candidate that \<^verbatim>\<open>applyReplacement\<close> can splice: its range lies in the original text
  and its insertion point is one of the two known ones.
\<close>

definition well_formed :: "string \<Rightarrow> candidate \<Rightarrow> bool" where
  "well_formed file c =
     (0 \<le> c_start c \<and> c_start c \<le> c_end c \<and> c_end c \<le> int (length file) \<and>
      (c_point c = ''beforeStart'' \<or> c_point c = ''afterEnd''))"

text \<open>The point at which \<^verbatim>\<open>applyReplacement\<close> records a candidate's change of length.\<close>

definition anchor :: "candidate \<Rightarrow> int" where
  "anchor c = (if c_point c = ''beforeStart'' then c_start c else c_end c + 1)"

text \<open>The order in which \<^verbatim>\<open>getResult\<close> splices the candidates.\<close>

definition splice_order :: "fixer \<Rightarrow> candidate list" where
  "splice_order this = rev (sort_replacements (f_replacements this))"

text \<open>
  No candidate of the list has its anchor inside \<open>(start, end]\<close> of a candidate that
  comes later in the list.
\<close>

definition anchors_clear :: "candidate list \<Rightarrow> bool" where
  "anchors_clear cs =
     sorted_wrt (\<lambda>a b. \<not> (c_start b < anchor a \<and> anchor a \<le> c_end b)) cs"

text \<open>
  The growth of the text by a candidate, the length of its text minus the width of its
  range; and the sum of the growths of those candidates of \<open>prev\<close> whose anchor is at
  most \<open>q\<close>, which is what the tree returns for \<open>q\<close> once \<open>prev\<close> has been spliced.
\<close>

definition net_growth :: "candidate \<Rightarrow> int" where
  "net_growth c = int (length (c_text c)) - (c_end c - c_start c)"

definition shift :: "candidate list \<Rightarrow> int \<Rightarrow> int" where
  "shift prev q = sum_list (map net_growth (filter (\<lambda>c. anchor c \<le> q) prev))"

text \<open>A range within a text of \<open>n\<close> characters.\<close>

definition in_text :: "int \<Rightarrow> candidate \<Rightarrow> bool" where
  "in_text n c = (0 \<le> c_start c \<and> c_start c \<le> c_end c \<and> c_end c \<le> n)"

text \<open>
  The fields \<^verbatim>\<open>_lines\<close> and \<^verbatim>\<open>_lineOffsets\<close> are as the constructor computes them from
  \<^verbatim>\<open>_file\<close>; no method assigns to any of the three.
\<close>

definition built_by_AutoFixer :: "fixer \<Rightarrow> bool" where
  "built_by_AutoFixer this =
     (f_lines this = split newline (f_file this) \<and>
      f_lineOffsets this = getLineOffsets (f_lines this))"

text \<open>Both offsets of every accepted candidate are offsets into the text.\<close>

definition in_range :: "fixer \<Rightarrow> bool" where
  "in_range this =
     (\<forall>c \<in> set (f_replacements this).
        0 \<le> c_start c \<and> c_start c \<le> int (length (f_file this)) \<and>
        0 \<le> c_end c \<and> c_end c \<le> int (length (f_file this)))"

subsection \<open>Example inputs\<close>

definition mk_replacement ::
  "int \<Rightarrow> int \<Rightarrow> int \<Rightarrow> int \<Rightarrow> int \<Rightarrow> string \<Rightarrow> string \<Rightarrow> replacement" where
  "mk_replacement l c el ec p ip t =
     \<lparr>r_line = l, r_column = c, r_endLine = el, r_endColumn = ec, r_precedence = p,
      r_insertionPoint = ip, r_replacement = t\<rparr>"

definition mk_candidate ::
  "int \<Rightarrow> int \<Rightarrow> int \<Rightarrow> int \<Rightarrow> int \<Rightarrow> string \<Rightarrow> string \<Rightarrow> candidate" where
  "mk_candidate s e sl el p pt t =
     \<lparr>c_start = s, c_end = e, c_startLine = sl, c_endLine = el, c_precedence = p,
      c_point = pt, c_text = t\<rparr>"

text \<open>
  The first test of \<^verbatim>\<open>autofixTest\<close>: the text \<^verbatim>\<open>cd $1\<close> and the two comments of
  ShellCheck, SC2164 (one replacement) and SC2086 (two).
\<close>

definition cd_items :: "item option list" where
  "cd_items =
     [Some (Item (Some (Fix (Some [mk_replacement 1 6 1 6 5 ''beforeStart'' '' || exit'']))) None),
      Some (Item (Some (Fix (Some [mk_replacement 1 4 1 4 7 ''afterEnd'' [CHR 0x22],
                                   mk_replacement 1 6 1 6 7 ''beforeStart'' [CHR 0x22]]))) None)]"

definition cd_fixer :: fixer where
  "cd_fixer = fst (applyFixes (AutoFixer ''cd $1'') cd_items)"

text \<open>The text \<^verbatim>\<open>abcdef\<close> with one accepted fix, which replaces \<^verbatim>\<open>cde\<close> by \<^verbatim>\<open>X\<close>.\<close>

definition abcdef_fixer :: fixer where
  "abcdef_fixer = fst (applyFix (AutoFixer ''abcdef'')
      (Some (Item None (Some [mk_replacement 1 3 1 6 7 ''beforeStart'' ''X'']))))"

text \<open>The text \<^verbatim>\<open>abc\<close> with one accepted fix that replaces all of it twice, by \<^verbatim>\<open>x\<close> and by \<^verbatim>\<open>y\<close>.\<close>

definition abc_twice_fixer :: fixer where
  "abc_twice_fixer = fst (applyFix (AutoFixer ''abc'')
      (Some (Item None (Some [mk_replacement 1 1 1 4 7 ''beforeStart'' ''x'',
                              mk_replacement 1 1 1 4 7 ''beforeStart'' ''y'']))))"

text \<open>
  The text \<^verbatim>\<open>abcdef\<close> with two accepted fixes: one replaces \<^verbatim>\<open>cde\<close> by \<^verbatim>\<open>X\<close>, the
  other inserts \<^verbatim>\<open>yy\<close> where \<^verbatim>\<open>cde\<close> ends. In the first object the insertion has the
  lower precedence and is spliced first, in the second the higher and is spliced last.
\<close>

definition abcdef_swallow_fixer :: fixer where
  "abcdef_swallow_fixer = fst (applyFix abcdef_fixer
      (Some (Item None (Some [mk_replacement 1 6 1 6 5 ''beforeStart'' ''yy'']))))"

definition abcdef_ordered_fixer :: fixer where
  "abcdef_ordered_fixer = fst (applyFixes (AutoFixer ''abcdef'')
      [Some (Item None (Some [mk_replacement 1 3 1 6 5 ''beforeStart'' ''X''])),
       Some (Item None (Some [mk_replacement 1 6 1 6 7 ''beforeStart'' ''yy'']))])"

subsection \<open>Facts about the tree\<close>

lemma lookup_node_acc: "lookup_node t q acc = acc + lookup_node t q 0"
proof (induction t arbitrary: acc)
  case (Node pv s l r)
  have L: "lookup_node n q a = a + lookup_node n q 0" if "l = Some n" for n a
    using Node.IH(1) [of n a] that by simp
  have R: "lookup_node n q a = a + lookup_node n q 0" if "r = Some n" for n a
    using Node.IH(2) [of n a] that by simp
  show ?case
  proof (cases l; cases r)
    fix n m assume "l = Some n" "r = Some m"
    then show ?thesis using L [of n acc] R [of m "acc + s"] R [of m s] by simp
  next
    fix n assume "l = Some n" "r = None"
    then show ?thesis using L [of n acc] by simp
  next
    fix m assume "l = None" "r = Some m"
    then show ?thesis using R [of m "acc + s"] R [of m s] by simp
  qed simp
qed

lemma lookup_insert_node:
  "lookup_node (insert_node t pt v) q a = lookup_node t q a + (if pt \<le> q then v else 0)"
proof (induction t arbitrary: a)
  case (Node pv s l r)
  let ?d = "if pt \<le> q then v else 0"
  have L: "lookup_node (insert_node n pt v) q b = lookup_node n q b + ?d"
    if "l = Some n" for n b
    using Node.IH(1) [of n b] that by simp
  have R: "lookup_node (insert_node n pt v) q b = lookup_node n q b + ?d"
    if "r = Some n" for n b
    using Node.IH(2) [of n b] that by simp
  have A: "lookup_node n q (a + (s + v)) = lookup_node n q (a + s) + v" for n
    using lookup_node_acc [of n q "a + (s + v)"] lookup_node_acc [of n q "a + s"] by simp
  consider (lt) "pt < pv" | (gt) "pv < pt" | (eq) "pt = pv" by linarith
  then show ?case
  proof cases
    case lt
    show ?thesis
    proof (cases l)
      case None
      then show ?thesis using lt A by (cases r) auto
    next
      case (Some n)
      then show ?thesis using lt A L [of n a] by (cases r) auto
    qed
  next
    case gt
    show ?thesis
    proof (cases r)
      case None
      then show ?thesis using gt by (cases l) auto
    next
      case (Some m)
      then show ?thesis using gt R [of m "a + s"] by (cases l) auto
    qed
  next
    case eq
    then show ?thesis using A by (cases l; cases r) auto
  qed
qed

lemma tree_lookup_insert:
  "tree_lookup (tree_insert t pt v) q = tree_lookup t q + (if pt \<le> q then v else 0)"
  unfolding tree_lookup_def tree_insert_def by (rule lookup_insert_node)

lemma tree_lookup_fresh: "tree_lookup PrefixSumTree q = 0"
  by (simp add: tree_lookup_def PrefixSumTree_def)

lemma tree_lookup_inserts:
  "tree_lookup (inserts t ops) p = tree_lookup t p + deltas_upto ops p"
proof (induction ops arbitrary: t)
  case Nil
  show ?case by (simp add: deltas_upto_def)
next
  case (Cons a ops)
  obtain pt d where a: "a = (pt, d)" by (cases a)
  show ?case using Cons.IH [of "tree_insert t pt d"]
    by (simp add: a tree_lookup_insert deltas_upto_def)
qed

text \<open>
  Claim C1. After any sequence of \<^verbatim>\<open>insert(point, delta)\<close> calls on a freshly created
  \<^verbatim>\<open>PrefixSumTree\<close>, \<^verbatim>\<open>lookup(p)\<close> returns the sum of the deltas of all inserted points
  that are less than or equal to \<open>p\<close>, for every query point \<open>p\<close>.
\<close>

theorem prefix_sum_lookup:
  "tree_lookup (inserts PrefixSumTree ops) p = deltas_upto ops p"
  by (simp add: tree_lookup_inserts tree_lookup_fresh)

subsection \<open>Accepting and rejecting a fix\<close>

lemma overlaps_sym: "overlaps a b = overlaps b a"
  by (auto simp: overlaps_def)

lemma applyFix_loop_Some:
  "applyFix_loop this reps acc = Inr (Some cs) \<Longrightarrow>
     \<exists>new. cs = acc @ new \<and> (\<forall>c \<in> set new. \<forall>e \<in> set (f_replacements this). \<not> overlaps c e)"
proof (induction reps arbitrary: acc)
  case Nil
  then show ?case by simp
next
  case (Cons rep reps)
  from Cons.prems obtain cand where b: "build_candidate this rep = Inr cand"
    by (cases "build_candidate this rep") auto
  from Cons.prems b have no: "\<not> list_ex (overlaps cand) (f_replacements this)"
    by (auto split: if_splits)
  with Cons.prems b have "applyFix_loop this reps (acc @ [cand]) = Inr (Some cs)"
    by simp
  from Cons.IH [OF this] obtain new where
    new: "cs = (acc @ [cand]) @ new"
      "\<forall>c \<in> set new. \<forall>e \<in> set (f_replacements this). \<not> overlaps c e"
    by blast
  have "cs = acc @ (cand # new)" using new(1) by simp
  moreover have "\<forall>c \<in> set (cand # new). \<forall>e \<in> set (f_replacements this). \<not> overlaps c e"
    using new(2) no by (auto simp: list_ex_iff)
  ultimately show ?case by blast
qed

lemma applyFix_True:
  assumes "applyFix this item = (this', Inr True)"
  shows "\<exists>cs. this' = this\<lparr>f_replacements := f_replacements this @ cs\<rparr> \<and>
           (\<forall>c \<in> set cs. \<forall>e \<in> set (f_replacements this). \<not> overlaps c e)"
proof -
  from assms obtain it reps cs where
    l: "applyFix_loop this reps [] = Inr (Some cs)"
    and t: "this' = this\<lparr>f_replacements := f_replacements this @ cs\<rparr>"
    by (auto simp: applyFix_def split: option.splits sum.splits)
  from applyFix_loop_Some [OF l] t show ?thesis by auto
qed

lemma applyFix_not_True:
  assumes "applyFix this item = (this', r)" "r \<noteq> Inr True"
  shows "this' = this"
  using assms by (auto simp: applyFix_def split: option.splits sum.splits)

lemma applyFix_loop_conflict:
  assumes "\<forall>r \<in> set pre. \<not> isl (build_candidate this r)"
    and "build_candidate this rep = Inr cand"
    and "\<exists>existing \<in> set (f_replacements this). overlaps cand existing"
  shows "applyFix_loop this (pre @ rep # post) acc = Inr None"
  using assms(1)
proof (induction pre arbitrary: acc)
  case Nil
  show ?case using assms(2,3) by (simp add: list_ex_iff)
next
  case (Cons r pre)
  then obtain c where c: "build_candidate this r = Inr c"
    by (cases "build_candidate this r") auto
  show ?case using Cons c by simp
qed

text \<open>
  Claim C2. If a candidate that \<^verbatim>\<open>applyFix\<close> builds from the fix's replacements overlaps
  a candidate already accepted, \<^verbatim>\<open>applyFix\<close> returns false and the accepted candidates
  are as they were: none of the fix's candidates is admitted. The candidate is the one
  of \<open>rep\<close>; the replacements before it have been built without an exception, those
  after it are never looked at.
\<close>

theorem overlap_rejects_whole_fix:
  assumes "replacements_of it = Some (pre @ rep # post)"
    and "\<forall>r \<in> set pre. \<not> isl (build_candidate this r)"
    and "build_candidate this rep = Inr cand"
    and "\<exists>existing \<in> set (f_replacements this). overlaps cand existing"
  shows "applyFix this (Some it) = (this, Inr False)"
  using assms(1) applyFix_loop_conflict [OF assms(2,3,4), of post "[]"]
  by (simp add: applyFix_def)

theorem overlap_rejects_whole_fix_witness:
  "applyFix abcdef_fixer
     (Some (Item (Some (Fix (Some [mk_replacement 1 1 1 1 5 ''beforeStart'' ''y'',
                                   mk_replacement 1 4 1 5 5 ''afterEnd'' ''z'',
                                   mk_replacement 9 1 9 1 5 ''afterEnd'' ''w'']))) None))
   = (abcdef_fixer, Inr False)"
proof -
  let ?pre = "[mk_replacement 1 1 1 1 5 ''beforeStart'' ''y'']"
  let ?rep = "mk_replacement 1 4 1 5 5 ''afterEnd'' ''z''"
  let ?post = "[mk_replacement 9 1 9 1 5 ''afterEnd'' ''w'']"
  let ?it = "Item (Some (Fix (Some (?pre @ ?rep # ?post)))) None"
  have h1: "replacements_of ?it = Some (?pre @ ?rep # ?post)"
    by (simp add: replacements_of_def)
  have h2: "\<forall>r \<in> set ?pre. \<not> isl (build_candidate abcdef_fixer r)"
    by code_simp
  have h3: "build_candidate abcdef_fixer ?rep = Inr (mk_candidate 3 4 1 1 5 ''afterEnd'' ''z'')"
    by code_simp
  have h4: "\<exists>existing \<in> set (f_replacements abcdef_fixer).
              overlaps (mk_candidate 3 4 1 1 5 ''afterEnd'' ''z'') existing"
    by code_simp
  show ?thesis
    using overlap_rejects_whole_fix [OF h1 h2 h3 h4] by simp
qed

lemma applyFix_loop_all_accept:
  assumes "list_all2 (\<lambda>rep cand. build_candidate this rep = Inr cand) reps cands"
    and "\<forall>cand \<in> set cands. \<forall>existing \<in> set (f_replacements this). \<not> overlaps cand existing"
  shows "applyFix_loop this reps acc = Inr (Some (acc @ cands))"
  using assms
proof (induction reps cands arbitrary: acc rule: list_all2_induct)
  case Nil
  show ?case by simp
next
  case (Cons rep reps cand cands)
  have "applyFix_loop this (rep # reps) acc = applyFix_loop this reps (acc @ [cand])"
    using Cons.hyps(1) Cons.prems by (simp add: list_ex_iff)
  then show ?case using Cons.IH [of "acc @ [cand]"] Cons.prems by simp
qed

text \<open>
  Claim C10. A candidate whose range only touches an accepted candidate's range at an
  end point (its end is the other's start, or the other's end is its start; either
  range may be empty) is in no conflict with it: the overlap test is false. A fix all
  of whose candidates only touch the accepted candidates in this way is accepted, its
  candidates appended in their order.
\<close>

theorem touching_is_no_conflict:
  "(c_end c = c_start e \<or> c_end e = c_start c \<longrightarrow> \<not> overlaps c e) \<and>
   (replacements_of it = Some reps \<and>
    list_all2 (\<lambda>rep cand. build_candidate this rep = Inr cand) reps cands \<and>
    (\<forall>cand \<in> set cands. \<forall>existing \<in> set (f_replacements this).
       c_end cand = c_start existing \<or> c_end existing = c_start cand)
    \<longrightarrow> applyFix this (Some it) =
          (this\<lparr>f_replacements := f_replacements this @ cands\<rparr>, Inr True))"
proof -
  have pure: "\<not> overlaps a b" if "c_end a = c_start b \<or> c_end b = c_start a" for a b
    using that by (auto simp: overlaps_def)
  have "applyFix this (Some it) = (this\<lparr>f_replacements := f_replacements this @ cands\<rparr>, Inr True)"
    if r: "replacements_of it = Some reps"
      and b: "list_all2 (\<lambda>rep cand. build_candidate this rep = Inr cand) reps cands"
      and t: "\<forall>cand \<in> set cands. \<forall>existing \<in> set (f_replacements this).
                c_end cand = c_start existing \<or> c_end existing = c_start cand"
  proof -
    have "\<forall>cand \<in> set cands. \<forall>existing \<in> set (f_replacements this). \<not> overlaps cand existing"
      using t pure by blast
    from applyFix_loop_all_accept [OF b this, of "[]"] r
    show ?thesis by (simp add: applyFix_def)
  qed
  then show ?thesis using pure by blast
qed

theorem touching_is_no_conflict_witness:
  "\<not> overlaps (mk_candidate 5 5 1 1 9 ''beforeStart'' ''z'') (mk_candidate 2 5 1 1 7 ''beforeStart'' ''X'') \<and>
   \<not> overlaps (mk_candidate 2 2 1 1 9 ''afterEnd'' ''y'') (mk_candidate 2 5 1 1 7 ''beforeStart'' ''X'') \<and>
   applyFix abcdef_fixer
     (Some (Item None (Some [mk_replacement 1 1 1 3 9 ''beforeStart'' ''w'',
                             mk_replacement 1 3 1 3 9 ''afterEnd'' ''y'',
                             mk_replacement 1 6 1 6 9 ''beforeStart'' ''z'',
                             mk_replacement 1 6 1 7 9 ''beforeStart'' ''v''])))
     = (abcdef_fixer\<lparr>f_replacements := f_replacements abcdef_fixer @
          [mk_candidate 0 2 1 1 9 ''beforeStart'' ''w'',
           mk_candidate 2 2 1 1 9 ''afterEnd'' ''y'',
           mk_candidate 5 5 1 1 9 ''beforeStart'' ''z'',
           mk_candidate 5 6 1 1 9 ''beforeStart'' ''v'']\<rparr>, Inr True)"
proof -
  let ?reps = "[mk_replacement 1 1 1 3 9 ''beforeStart'' ''w'',
                mk_replacement 1 3 1 3 9 ''afterEnd'' ''y'',
                mk_replacement 1 6 1 6 9 ''beforeStart'' ''z'',
                mk_replacement 1 6 1 7 9 ''beforeStart'' ''v'']"
  let ?cands = "[mk_candidate 0 2 1 1 9 ''beforeStart'' ''w'',
                 mk_candidate 2 2 1 1 9 ''afterEnd'' ''y'',
                 mk_candidate 5 5 1 1 9 ''beforeStart'' ''z'',
                 mk_candidate 5 6 1 1 9 ''beforeStart'' ''v'']"
  let ?E = "mk_candidate 2 5 1 1 7 ''beforeStart'' ''X''"
  have h1: "replacements_of (Item None (Some ?reps)) = Some ?reps"
    by (simp add: replacements_of_def)
  have h2: "list_all2 (\<lambda>rep cand. build_candidate abcdef_fixer rep = Inr cand) ?reps ?cands"
    by code_simp
  have h3: "\<forall>cand \<in> set ?cands. \<forall>existing \<in> set (f_replacements abcdef_fixer).
              c_end cand = c_start existing \<or> c_end existing = c_start cand"
    by code_simp
  have t1: "c_end (mk_candidate 5 5 1 1 9 ''beforeStart'' ''z'') = c_start ?E \<or>
            c_end ?E = c_start (mk_candidate 5 5 1 1 9 ''beforeStart'' ''z'')"
    by code_simp
  have t2: "c_end (mk_candidate 2 2 1 1 9 ''afterEnd'' ''y'') = c_start ?E \<or>
            c_end ?E = c_start (mk_candidate 2 2 1 1 9 ''afterEnd'' ''y'')"
    by code_simp
  show ?thesis
    using touching_is_no_conflict
            [of "mk_candidate 5 5 1 1 9 ''beforeStart'' ''z''" ?E "Item None (Some ?reps)"
                ?reps abcdef_fixer ?cands]
      touching_is_no_conflict
            [of "mk_candidate 2 2 1 1 9 ''afterEnd'' ''y''" ?E "Item None (Some ?reps)"
                ?reps abcdef_fixer ?cands]
      h1 h2 h3 t1 t2
    by blast
qed

text \<open>
  Claim C6, as the code has it. A fix that carries no sequence of replacements at all
  (the item is falsy, or the field \<^verbatim>\<open>replacements\<close> it is read from is undefined) is
  rejected and the accepted candidates stay as they are. A fix whose sequence of
  replacements is there but empty is accepted, and the accepted candidates stay as
  they are too.
\<close>

theorem no_replacements_rejected:
  "(item = None \<or> (\<exists>it. item = Some it \<and> replacements_of it = None)
      \<longrightarrow> applyFix this item = (this, Inr False)) \<and>
   (replacements_of it' = Some [] \<longrightarrow> applyFix this (Some it') = (this, Inr True))"
  by (auto simp: applyFix_def)

theorem no_replacements_rejected_witness:
  "applyFix cd_fixer None = (cd_fixer, Inr False) \<and>
   applyFix cd_fixer (Some (Item (Some (Fix None)) (Some []))) = (cd_fixer, Inr False) \<and>
   applyFix cd_fixer (Some (Item None (Some []))) = (cd_fixer, Inr True)"
proof -
  have h1: "replacements_of (Item (Some (Fix None)) (Some [])) = None"
    and h2: "replacements_of (Item None (Some [])) = Some []"
    by (simp_all add: replacements_of_def)
  show ?thesis
    using no_replacements_rejected [of None cd_fixer "Item None (Some [])"]
      no_replacements_rejected
        [of "Some (Item (Some (Fix None)) (Some []))" cd_fixer "Item None (Some [])"]
      h1 h2
    by simp
qed

theorem empty_replacements_counterexample:
  "replacements_of (Item None (Some [])) = Some [] \<and>
   snd (applyFix (AutoFixer ''abc'') (Some (Item None (Some [])))) = Inr True"
  by code_simp

subsection \<open>Tab stops\<close>

lemma adjustTabStops_loop_no_tab:
  assumes "i < c" "c \<le> i + int (length rest) + 1"
    and "tab \<notin> set (take (nat (c - 1 - i)) rest)"
  shows "adjustTabStops_loop rest c i i = c"
  using assms
proof (induction rest arbitrary: i)
  case Nil
  then show ?case by simp
next
  case (Cons ch rest)
  show ?case
  proof (cases "c \<le> i + 1")
    case True
    then have "c = i + 1" using Cons.prems(1) by simp
    moreover have "i mod 8 \<le> 7" using pos_mod_bound [of 8 i] by simp
    ultimately show ?thesis by (simp add: Let_def)
  next
    case False
    then have pos: "0 < nat (c - 1 - i)" by simp
    have nt: "ch \<noteq> tab" using Cons.prems(3) pos
      by (cases "nat (c - 1 - i)") auto
    have eq: "nat (c - 1 - i) = Suc (nat (c - 1 - (i + 1)))" using False by simp
    have rest: "tab \<notin> set (take (nat (c - 1 - (i + 1))) rest)"
      using Cons.prems(3) unfolding eq by simp
    have "adjustTabStops_loop rest c (i + 1) (i + 1) = c"
      using Cons.IH [of "i + 1"] False Cons.prems(2) rest by simp
    then show ?thesis using False nt by (simp add: Let_def)
  qed
qed

text \<open>
  Claim C8, as the code has it. For a line of the text and a column \<open>c\<close> from 1 to one
  past the line's length, \<^verbatim>\<open>adjustTabStops\<close> returns \<open>c\<close> when none of the \<open>c - 1\<close>
  characters before column \<open>c\<close> is a tab.
\<close>

theorem adjustTabStops_identity:
  assumes "js_index (f_lines this) (lineNo - 1) = Some line"
    and "1 \<le> c" and "c \<le> int (length line) + 1"
    and "tab \<notin> set (take (nat (c - 1)) line)"
  shows "adjustTabStops this lineNo c = Inr c"
  using assms adjustTabStops_loop_no_tab [of 0 c line]
  by (simp add: adjustTabStops_def)

theorem adjustTabStops_identity_witness:
  "adjustTabStops (AutoFixer [CHR ''a'', CHR ''b'', tab, CHR ''c'']) 1 3 = Inr 3"
proof -
  let ?line = "[CHR ''a'', CHR ''b'', tab, CHR ''c'']"
  have h1: "js_index (f_lines (AutoFixer ?line)) (1 - 1) = Some ?line"
    by code_simp
  have h2: "(1::int) \<le> 3" and h3: "(3::int) \<le> int (length ?line) + 1"
    by simp_all
  have h4: "tab \<notin> set (take (nat (3 - 1)) ?line)"
    by code_simp
  show ?thesis
    using adjustTabStops_identity [OF h1 h2 h3 h4] .
qed

theorem adjustTabStops_beyond_line_counterexample:
  "tab \<notin> set ''abc'' \<and>
   adjustTabStops (AutoFixer ''abc'') 1 10 = Inr 4 \<and>
   adjustTabStops (AutoFixer ''abc'') 1 0 = Inr 1"
  by code_simp

subsection \<open>The table of line offsets\<close>

lemma line_size_pos: "0 < line_size l"
  by (simp add: line_size_def)

lemma split_not_Nil: "split sep s \<noteq> []"
  by (induction s) (auto split: list.splits)

lemma sum_line_size_split:
  "sum_list (map line_size (split sep s)) = int (length s) + 1"
proof (induction s)
  case Nil
  show ?case by (simp add: line_size_def)
next
  case (Cons c cs)
  show ?case
  proof (cases "c = sep")
    case True
    then show ?thesis using Cons by (simp add: line_size_def)
  next
    case False
    obtain l ls where sp: "split sep cs = l # ls"
      using split_not_Nil [of sep cs] by (cases "split sep cs") auto
    show ?thesis using False Cons sp by (simp add: line_size_def)
  qed
qed

lemma getLineOffsets_loop_eq:
  "getLineOffsets_loop ls sm offs =
     offs @ map (\<lambda>k. sm + sum_list (map line_size (take k ls))) [0..<Suc (length ls)]"
proof (induction ls arbitrary: sm offs)
  case Nil
  show ?case by simp
next
  case (Cons l ls)
  have "[0..<Suc (Suc (length ls))] = 0 # [Suc 0..<Suc (Suc (length ls))]"
    by (rule upt_conv_Cons) simp
  then have "[0..<Suc (Suc (length ls))] = 0 # map Suc [0..<Suc (length ls)]"
    by (simp only: map_Suc_upt)
  then show ?case
    using Cons.IH [of "sm + (int (length l) + 1)" "offs @ [sm]"]
    by (simp add: line_size_def comp_def add.assoc del: upt_Suc)
qed

lemma getLineOffsets_eq:
  "getLineOffsets ls = map (\<lambda>k. sum_list (map line_size (take k ls))) [0..<Suc (length ls)]"
  by (simp add: getLineOffsets_def getLineOffsets_loop_eq del: upt_Suc)

lemma length_getLineOffsets: "length (getLineOffsets ls) = length ls + 1"
  by (simp add: getLineOffsets_eq del: upt_Suc)

lemma getLineOffsets_nth:
  "i \<le> length ls \<Longrightarrow> getLineOffsets ls ! i = sum_list (map line_size (take i ls))"
  by (simp add: getLineOffsets_eq nth_map_upt del: upt_Suc)

lemma sum_take_mono:
  assumes "i < j" "j \<le> length ls"
  shows "sum_list (map line_size (take i ls)) < sum_list (map line_size (take j ls))"
  using assms
proof (induction ls arbitrary: i j)
  case Nil
  then show ?case by simp
next
  case (Cons l ls)
  obtain j' where j: "j = Suc j'" using Cons.prems(1) by (cases j) auto
  have nonneg: "0 \<le> sum_list (map line_size (take j' ls))"
    by (rule sum_list_nonneg) (auto simp: line_size_def)
  show ?case
  proof (cases i)
    case 0
    then show ?thesis using j nonneg line_size_pos [of l] by simp
  next
    case (Suc i')
    then show ?thesis using j Cons.IH [of i' j'] Cons.prems by simp
  qed
qed

lemma getLineOffsets_increasing: "sorted_wrt (<) (getLineOffsets ls)"
  unfolding sorted_wrt_iff_nth_less
  by (auto simp: length_getLineOffsets getLineOffsets_nth sum_take_mono)

text \<open>
  Claim C5, as the code has it. The table built when the fixer is created has one entry
  per line and one more; the entry of line \<open>i\<close> is the sum of length + 1 over the lines
  before it, and so is the last entry, over all lines: it is the length of the text
  plus one. The table is strictly increasing.
\<close>

theorem line_offsets_table:
  "f_lineOffsets (AutoFixer file) = getLineOffsets (split newline file) \<and>
   length (f_lineOffsets (AutoFixer file)) = length (f_lines (AutoFixer file)) + 1 \<and>
   (\<forall>i \<le> length (f_lines (AutoFixer file)).
      f_lineOffsets (AutoFixer file) ! i =
        sum_list (map (\<lambda>l. int (length l) + 1) (take i (f_lines (AutoFixer file))))) \<and>
   last (f_lineOffsets (AutoFixer file)) = int (length file) + 1 \<and>
   sorted_wrt (<) (f_lineOffsets (AutoFixer file))"
proof -
  let ?ls = "split newline file"
  have a: "f_lineOffsets (AutoFixer file) = getLineOffsets ?ls"
    and b: "f_lines (AutoFixer file) = ?ls"
    by (simp_all add: AutoFixer_def Let_def)
  have ne: "getLineOffsets ?ls \<noteq> []"
    using length_getLineOffsets [of ?ls] by auto
  have l: "last (getLineOffsets ?ls) = int (length file) + 1"
    using ne length_getLineOffsets [of ?ls] getLineOffsets_nth [of "length ?ls" ?ls]
      sum_line_size_split [of newline "file"]
    by (simp add: last_conv_nth)
  have n: "\<forall>i \<le> length ?ls. getLineOffsets ?ls ! i =
             sum_list (map (\<lambda>l. int (length l) + 1) (take i ?ls))"
    using getLineOffsets_nth [of _ ?ls] by (simp add: line_size_def[abs_def])
  show ?thesis
    unfolding a b using l n length_getLineOffsets [of ?ls] getLineOffsets_increasing [of ?ls]
    by simp
qed

theorem line_offsets_table_witness:
  "(2::nat) \<le> length (f_lines (AutoFixer ''foo\<newline>cd foo\<newline>bar\<newline>'')) \<and>
   f_lineOffsets (AutoFixer ''foo\<newline>cd foo\<newline>bar\<newline>'') ! 2 = 11 \<and>
   last (f_lineOffsets (AutoFixer ''foo\<newline>cd foo\<newline>bar\<newline>'')) = 16"
proof -
  let ?f = "AutoFixer ''foo\<newline>cd foo\<newline>bar\<newline>''"
  have h: "(2::nat) \<le> length (f_lines ?f)"
    by code_simp
  have s: "sum_list (map (\<lambda>l. int (length l) + 1) (take 2 (f_lines ?f))) = 11"
    by code_simp
  have "f_lineOffsets ?f ! 2 = sum_list (map (\<lambda>l. int (length l) + 1) (take 2 (f_lines ?f)))"
    using line_offsets_table [of "''foo\<newline>cd foo\<newline>bar\<newline>''"] h by blast
  moreover have "last (f_lineOffsets ?f) = int (length ''foo\<newline>cd foo\<newline>bar\<newline>'') + 1"
    using line_offsets_table [of "''foo\<newline>cd foo\<newline>bar\<newline>''"] by blast
  ultimately show ?thesis using h s by simp
qed

theorem line_offsets_sentinel_counterexample:
  "last (f_lineOffsets (AutoFixer ''abc'')) = 4 \<and> int (length ''abc'') = 3"
  by code_simp

subsection \<open>Rendering\<close>

lemma sort_replacements_idem:
  "sort_replacements (sort_replacements reps) = sort_replacements reps"
  unfolding sort_replacements_def
  by (rule sort_key_id_if_sorted) (rule sorted_sort_key)

lemma mset_sort_replacements: "mset (sort_replacements reps) = mset reps"
  by (simp add: sort_replacements_def)

lemma set_sort_replacements: "set (sort_replacements reps) = set reps"
  by (simp add: sort_replacements_def)

lemma fst_getResult:
  "fst (getResult this) = this\<lparr>f_replacements := sort_replacements (f_replacements this)\<rparr>"
  by (simp add: getResult_def Let_def)

lemma fst_getSnippet:
  "fst (getSnippet this) = this\<lparr>f_replacements := sort_replacements (f_replacements this)\<rparr>"
  by (simp add: getSnippet_def Let_def sort_replacements_def)

text \<open>
  Claim C7. Calling \<^verbatim>\<open>getResult\<close> twice with nothing in between gives the same outcome
  twice, the same string or the same exception: the second call starts from a fresh
  tree and from the candidates as the first call has sorted them.
\<close>

theorem getResult_idempotent:
  "snd (getResult (fst (getResult this))) = snd (getResult this)"
  by (simp add: getResult_def Let_def sort_replacements_idem)

text \<open>
  Claim C9, as the code has it. \<^verbatim>\<open>getResult\<close> and \<^verbatim>\<open>getSnippet\<close> add no candidate, drop
  none and change none, but they sort the accepted candidates in place: after either
  call the sequence is the stable sort by descending precedence of what it was. A
  further rendering call leaves the object as the first one left it, and the text is
  never touched.
\<close>

theorem rendering_sorts_accepted_set:
  "f_replacements (fst (getResult this)) = sort_replacements (f_replacements this) \<and>
   f_replacements (fst (getSnippet this)) = sort_replacements (f_replacements this) \<and>
   mset (f_replacements (fst (getResult this))) = mset (f_replacements this) \<and>
   mset (f_replacements (fst (getSnippet this))) = mset (f_replacements this) \<and>
   fst (getResult (fst (getResult this))) = fst (getResult this) \<and>
   fst (getSnippet (fst (getSnippet this))) = fst (getSnippet this) \<and>
   fst (getResult (fst (getSnippet this))) = fst (getSnippet this) \<and>
   fst (getSnippet (fst (getResult this))) = fst (getResult this) \<and>
   f_file (fst (getResult this)) = f_file this \<and>
   f_file (fst (getSnippet this)) = f_file this"
  by (simp add: fst_getResult fst_getSnippet sort_replacements_idem mset_sort_replacements)

theorem rendering_reorders_counterexample:
  "map c_precedence (f_replacements cd_fixer) = [5, 7, 7] \<and>
   map c_precedence (f_replacements (fst (getResult cd_fixer))) = [7, 7, 5] \<and>
   map c_precedence (f_replacements (fst (getSnippet cd_fixer))) = [7, 7, 5] \<and>
   f_replacements (fst (getResult cd_fixer)) \<noteq> f_replacements cd_fixer \<and>
   f_replacements (fst (getSnippet cd_fixer)) \<noteq> f_replacements cd_fixer"
  by code_simp

subsection \<open>The accepted candidates of a reachable state\<close>

lemma groups_disjoint_snoc:
  "groups_disjoint (gs @ [g]) =
     (groups_disjoint gs \<and> (\<forall>h \<in> set gs. \<forall>a \<in> set h. \<forall>b \<in> set g. \<not> overlaps a b))"
  by (auto simp: groups_disjoint_def sorted_wrt_append list_all_iff)

lemma reach_invariant:
  "reach this gs \<Longrightarrow> mset (f_replacements this) = mset (concat gs) \<and> groups_disjoint gs"
proof (induction rule: reach.induct)
  case (created src)
  show ?case by (simp add: AutoFixer_def Let_def groups_disjoint_def)
next
  case (accepted this gs item this')
  from applyFix_True [OF accepted.hyps(2)] obtain cs where
    t: "this' = this\<lparr>f_replacements := f_replacements this @ cs\<rparr>"
    and no: "\<forall>c \<in> set cs. \<forall>e \<in> set (f_replacements this). \<not> overlaps c e"
    by blast
  have d: "drop (length (f_replacements this)) (f_replacements this') = cs"
    using t by simp
  have s: "set (f_replacements this) = set (concat gs)"
    using accepted.IH by (metis set_mset_mset)
  have "\<forall>h \<in> set gs. \<forall>a \<in> set h. \<forall>b \<in> set cs. \<not> overlaps a b"
  proof (intro ballI)
    fix h a b assume "h \<in> set gs" "a \<in> set h" "b \<in> set cs"
    then have "a \<in> set (f_replacements this)" using s by auto
    with no \<open>b \<in> set cs\<close> have "\<not> overlaps b a" by blast
    then show "\<not> overlaps a b" by (simp add: overlaps_sym)
  qed
  then show ?case
    unfolding d using accepted.IH t by (simp add: groups_disjoint_snoc)
next
  case (not_accepted this gs item this' r)
  then show ?case using applyFix_not_True by blast
next
  case (was_reset this gs)
  show ?case by (simp add: reset_def groups_disjoint_def)
next
  case (result_rendered this gs)
  then show ?case by (simp add: fst_getResult mset_sort_replacements)
next
  case (snippet_rendered this gs)
  then show ?case by (simp add: fst_getSnippet mset_sort_replacements)
qed

lemma sorted_wrt_sym_mset:
  assumes sym: "\<And>a b. P a b = P b a"
  shows "mset xs = mset ys \<Longrightarrow> sorted_wrt P xs = sorted_wrt P ys"
proof (induction xs arbitrary: ys)
  case Nil
  then show ?case by simp
next
  case (Cons x xs)
  have "x \<in> set ys" using Cons.prems by (metis list.set_intros(1) set_mset_mset)
  then obtain ys1 ys2 where ys: "ys = ys1 @ x # ys2" by (auto dest: split_list)
  have m: "mset xs = mset (ys1 @ ys2)" using Cons.prems ys by simp
  then have s: "set xs = set (ys1 @ ys2)" by (metis set_mset_mset)
  have "sorted_wrt P (ys1 @ x # ys2) =
          ((\<forall>y \<in> set (ys1 @ ys2). P x y) \<and> sorted_wrt P (ys1 @ ys2))"
    using sym by (auto simp: sorted_wrt_append)
  then show ?case using Cons.IH [OF m] s ys by simp
qed

lemma pairwise_disjoint_mset:
  "mset xs = mset ys \<Longrightarrow> pairwise_disjoint xs = pairwise_disjoint ys"
  unfolding pairwise_disjoint_def
  by (rule sorted_wrt_sym_mset) (auto simp: overlaps_def)

lemma pairwise_disjoint_concat:
  "groups_disjoint gs \<Longrightarrow> list_all pairwise_disjoint gs \<Longrightarrow> pairwise_disjoint (concat gs)"
proof (induction gs)
  case Nil
  show ?case by (simp add: pairwise_disjoint_def)
next
  case (Cons g gs)
  then show ?case
    by (auto simp: groups_disjoint_def pairwise_disjoint_def sorted_wrt_append list_all_iff)
qed

lemma applyFixes_loop_reach:
  "reach this gs \<Longrightarrow> \<exists>gs'. reach (fst (applyFixes_loop this fixlist res)) gs'"
proof (induction fixlist arbitrary: this gs res)
  case Nil
  then show ?case by auto
next
  case (Cons fx fixlist)
  obtain this' r where a: "applyFix this fx = (this', r)" by (cases "applyFix this fx")
  show ?case
  proof (cases r)
    case (Inl e)
    then have "reach this' gs" using Cons.prems a reach.not_accepted by blast
    then show ?thesis using a Inl by auto
  next
    case (Inr b)
    show ?thesis
    proof (cases b)
      case True
      then have "reach this' (gs @ [drop (length (f_replacements this)) (f_replacements this')])"
        using reach.accepted [OF Cons.prems, of fx this'] a Inr by simp
      from Cons.IH [OF this] show ?thesis using a Inr True by simp
    next
      case False
      then have "reach this' gs" using Cons.prems a Inr reach.not_accepted by blast
      from Cons.IH [OF this] show ?thesis using a Inr False by simp
    qed
  qed
qed

text \<open>
  Claim C3, as the code has it. In every state reachable by \<^verbatim>\<open>applyFix\<close>, \<^verbatim>\<open>applyFixes\<close>,
  \<^verbatim>\<open>reset\<close> and the rendering calls, the accepted candidates are those of the fixes
  accepted since the last reset, and two candidates that came from different fixes
  never overlap. Candidates of one fix are not tested against each other; when the
  candidates of each accepted fix are pairwise disjoint, so are all accepted
  candidates. The state after \<^verbatim>\<open>applyFixes\<close> is reachable again.
\<close>

theorem accepted_groups_disjoint:
  assumes "reach this gs"
  shows "mset (f_replacements this) = mset (concat gs) \<and>
         groups_disjoint gs \<and>
         (list_all pairwise_disjoint gs \<longrightarrow> pairwise_disjoint (f_replacements this)) \<and>
         (\<exists>gs'. reach (fst (applyFixes this fixlist)) gs')"
proof -
  have i: "mset (f_replacements this) = mset (concat gs)" "groups_disjoint gs"
    using reach_invariant [OF assms] by simp_all
  have "pairwise_disjoint (f_replacements this)" if "list_all pairwise_disjoint gs"
    using pairwise_disjoint_concat [OF i(2) that] pairwise_disjoint_mset [OF i(1)] by simp
  moreover have "\<exists>gs'. reach (fst (applyFixes this fixlist)) gs'"
    unfolding applyFixes_def by (rule applyFixes_loop_reach [OF assms])
  ultimately show ?thesis using i by blast
qed

lemma reach_cd_fixer:
  "reach cd_fixer [[mk_candidate 5 5 1 1 5 ''beforeStart'' '' || exit''],
                   [mk_candidate 3 3 1 1 7 ''afterEnd'' [CHR 0x22],
                    mk_candidate 5 5 1 1 7 ''beforeStart'' [CHR 0x22]]]"
proof -
  let ?i1 = "cd_items ! 0" and ?i2 = "cd_items ! 1"
  let ?s1 = "fst (applyFix (AutoFixer ''cd $1'') ?i1)"
  have a1: "applyFix (AutoFixer ''cd $1'') ?i1 = (?s1, Inr True)" by code_simp
  have a2: "applyFix ?s1 ?i2 = (cd_fixer, Inr True)" by code_simp
  have d: "([] @ [drop (length (f_replacements (AutoFixer ''cd $1''))) (f_replacements ?s1)])
             @ [drop (length (f_replacements ?s1)) (f_replacements cd_fixer)]
           = [[mk_candidate 5 5 1 1 5 ''beforeStart'' '' || exit''],
                   [mk_candidate 3 3 1 1 7 ''afterEnd'' [CHR 0x22],
                    mk_candidate 5 5 1 1 7 ''beforeStart'' [CHR 0x22]]]"
    by code_simp
  show ?thesis
    using reach.accepted [OF reach.accepted [OF reach.created a1] a2] unfolding d .
qed

theorem accepted_groups_disjoint_witness:
  "mset (f_replacements cd_fixer) =
     mset (concat [[mk_candidate 5 5 1 1 5 ''beforeStart'' '' || exit''],
                   [mk_candidate 3 3 1 1 7 ''afterEnd'' [CHR 0x22],
                    mk_candidate 5 5 1 1 7 ''beforeStart'' [CHR 0x22]]]) \<and>
   groups_disjoint [[mk_candidate 5 5 1 1 5 ''beforeStart'' '' || exit''],
                   [mk_candidate 3 3 1 1 7 ''afterEnd'' [CHR 0x22],
                    mk_candidate 5 5 1 1 7 ''beforeStart'' [CHR 0x22]]] \<and>
   pairwise_disjoint (f_replacements cd_fixer) \<and>
   (\<exists>gs'. reach (fst (applyFixes cd_fixer cd_items)) gs')"
proof -
  have g: "list_all pairwise_disjoint
             [[mk_candidate 5 5 1 1 5 ''beforeStart'' '' || exit''],
              [mk_candidate 3 3 1 1 7 ''afterEnd'' [CHR 0x22],
               mk_candidate 5 5 1 1 7 ''beforeStart'' [CHR 0x22]]]"
    by code_simp
  show ?thesis
    using accepted_groups_disjoint [OF reach_cd_fixer, of cd_items] g by blast
qed

lemma reach_abc_twice:
  "reach abc_twice_fixer [[mk_candidate 0 3 1 1 7 ''beforeStart'' ''x'',
                           mk_candidate 0 3 1 1 7 ''beforeStart'' ''y'']]"
proof -
  let ?it = "Some (Item None (Some [mk_replacement 1 1 1 4 7 ''beforeStart'' ''x'',
                              mk_replacement 1 1 1 4 7 ''beforeStart'' ''y'']))"
  have a: "applyFix (AutoFixer ''abc'') ?it = (abc_twice_fixer, Inr True)"
    by code_simp
  have d: "[] @ [drop (length (f_replacements (AutoFixer ''abc''))) (f_replacements abc_twice_fixer)]
           = [[mk_candidate 0 3 1 1 7 ''beforeStart'' ''x'',
               mk_candidate 0 3 1 1 7 ''beforeStart'' ''y'']]"
    by code_simp
  show ?thesis
    using reach.accepted [OF reach.created a] unfolding d .
qed

theorem self_overlap_counterexample:
  "reach abc_twice_fixer [[mk_candidate 0 3 1 1 7 ''beforeStart'' ''x'',
                           mk_candidate 0 3 1 1 7 ''beforeStart'' ''y'']] \<and>
   f_replacements abc_twice_fixer =
     [mk_candidate 0 3 1 1 7 ''beforeStart'' ''x'', mk_candidate 0 3 1 1 7 ''beforeStart'' ''y''] \<and>
   mk_candidate 0 3 1 1 7 ''beforeStart'' ''x'' \<noteq> mk_candidate 0 3 1 1 7 ''beforeStart'' ''y'' \<and>
   overlaps (mk_candidate 0 3 1 1 7 ''beforeStart'' ''x'')
     (mk_candidate 0 3 1 1 7 ''beforeStart'' ''y'') \<and>
   \<not> pairwise_disjoint (f_replacements abc_twice_fixer)"
proof -
  have "f_replacements abc_twice_fixer =
     [mk_candidate 0 3 1 1 7 ''beforeStart'' ''x'', mk_candidate 0 3 1 1 7 ''beforeStart'' ''y'']"
    by code_simp
  moreover have "mk_candidate 0 3 1 1 7 ''beforeStart'' ''x'' \<noteq>
                 mk_candidate 0 3 1 1 7 ''beforeStart'' ''y''"
    by code_simp
  moreover have "overlaps (mk_candidate 0 3 1 1 7 ''beforeStart'' ''x'')
     (mk_candidate 0 3 1 1 7 ''beforeStart'' ''y'')"
    by code_simp
  moreover have "\<not> pairwise_disjoint (f_replacements abc_twice_fixer)"
    by code_simp
  ultimately show ?thesis using reach_abc_twice by blast
qed

subsection \<open>Offsets of the accepted candidates\<close>

lemma adjustTabStops_loop_range:
  "i + 1 \<le> adjustTabStops_loop rest col logical i \<and>
   adjustTabStops_loop rest col logical i \<le> i + int (length rest) + 1"
proof (induction rest arbitrary: logical i)
  case Nil
  show ?case by simp
next
  case (Cons ch rest)
  show ?case
    using Cons.IH [where i = "i + 1" and logical = "logical + (8 - logical mod 8)"]
      Cons.IH [where i = "i + 1" and logical = "logical + 1"]
    by (simp add: Let_def)
qed

lemma sum_take_le:
  "sum_list (map line_size (take j ls)) \<le> sum_list (map line_size ls)"
proof (cases "j < length ls")
  case True
  then show ?thesis using sum_take_mono [of j "length ls" ls] by simp
next
  case False
  then show ?thesis by simp
qed

lemma getOffsetFor_range:
  assumes b: "built_by_AutoFixer this"
    and g: "getOffsetFor this ln col = Inr off"
  shows "0 \<le> off \<and> off \<le> int (length (f_file this))"
proof -
  let ?ls = "f_lines this"
  from g obtain line where line: "js_index ?ls (ln - 1) = Some line"
    by (auto simp: getOffsetFor_def adjustTabStops_def split: option.splits sum.splits)
  define i where "i = nat (ln - 1)"
  have i: "i < length ?ls" "?ls ! i = line" "0 \<le> ln - 1"
    using line by (auto simp: js_index_def i_def split: if_splits)
  have o: "js_index (f_lineOffsets this) (ln - 1) = Some (getLineOffsets ?ls ! i)"
    using b i length_getLineOffsets [of ?ls]
    by (simp add: js_index_def built_by_AutoFixer_def i_def)
  define a where "a = adjustTabStops_loop line col 0 0"
  have off: "off = getLineOffsets ?ls ! i + a - 1"
    using g line o by (simp add: getOffsetFor_def adjustTabStops_def a_def)
  have a: "1 \<le> a" "a \<le> int (length line) + 1"
    using adjustTabStops_loop_range [of 0 line col 0] by (simp_all add: a_def)
  have n: "getLineOffsets ?ls ! i = sum_list (map line_size (take i ?ls))"
    using i(1) by (simp add: getLineOffsets_nth)
  have nonneg: "0 \<le> sum_list (map line_size (take i ?ls))"
    by (rule sum_list_nonneg) (auto simp: line_size_def)
  have "sum_list (map line_size (take (Suc i) ?ls)) =
          sum_list (map line_size (take i ?ls)) + line_size line"
    using i by (simp add: take_Suc_conv_app_nth)
  moreover have "sum_list (map line_size (take (Suc i) ?ls)) \<le> sum_list (map line_size ?ls)"
    by (rule sum_take_le)
  moreover have "sum_list (map line_size ?ls) = int (length (f_file this)) + 1"
    using b sum_line_size_split [of newline "f_file this"] by (simp add: built_by_AutoFixer_def)
  ultimately have "sum_list (map line_size (take i ?ls)) + int (length line) \<le> int (length (f_file this))"
    by (simp add: line_size_def)
  then show ?thesis using off a n nonneg by simp
qed

lemma build_candidate_range:
  assumes "built_by_AutoFixer this" "build_candidate this rep = Inr c"
  shows "0 \<le> c_start c \<and> c_start c \<le> int (length (f_file this)) \<and>
         0 \<le> c_end c \<and> c_end c \<le> int (length (f_file this))"
proof -
  from assms(2) obtain s e where
    s: "getOffsetFor this (r_line rep) (r_column rep) = Inr s"
    and e: "getOffsetFor this (r_endLine rep) (r_endColumn rep) = Inr e"
    and c: "c_start c = s" "c_end c = e"
    by (auto simp: build_candidate_def split: sum.splits)
  show ?thesis
    using getOffsetFor_range [OF assms(1) s] getOffsetFor_range [OF assms(1) e] c by simp
qed

lemma applyFix_loop_built:
  "applyFix_loop this reps acc = Inr (Some cs) \<Longrightarrow>
     \<forall>c \<in> set cs. c \<in> set acc \<or> (\<exists>rep. build_candidate this rep = Inr c)"
proof (induction reps arbitrary: acc)
  case Nil
  then show ?case by simp
next
  case (Cons rep reps)
  from Cons.prems obtain cand where b: "build_candidate this rep = Inr cand"
    by (cases "build_candidate this rep") auto
  from Cons.prems b have "applyFix_loop this reps (acc @ [cand]) = Inr (Some cs)"
    by (auto split: if_splits)
  from Cons.IH [OF this] show ?case using b by auto
qed

lemma applyFix_keeps_range:
  assumes "built_by_AutoFixer this" "in_range this" "applyFix this item = (this', r)"
  shows "built_by_AutoFixer this' \<and> in_range this'"
proof (cases "r = Inr True")
  case False
  then show ?thesis using assms applyFix_not_True by blast
next
  case True
  from assms(3) True obtain reps cs where
    l: "applyFix_loop this reps [] = Inr (Some cs)"
    and t: "this' = this\<lparr>f_replacements := f_replacements this @ cs\<rparr>"
    by (auto simp: applyFix_def split: option.splits sum.splits)
  have "\<forall>c \<in> set cs. \<exists>rep. build_candidate this rep = Inr c"
    using applyFix_loop_built [OF l] by simp
  then have "\<forall>c \<in> set cs. 0 \<le> c_start c \<and> c_start c \<le> int (length (f_file this)) \<and>
         0 \<le> c_end c \<and> c_end c \<le> int (length (f_file this))"
    using build_candidate_range [OF assms(1)] by blast
  then show ?thesis
    using assms(1,2) t by (auto simp: in_range_def built_by_AutoFixer_def)
qed

lemma reach_in_range: "reach this gs \<Longrightarrow> built_by_AutoFixer this \<and> in_range this"
proof (induction rule: reach.induct)
  case (created src)
  show ?case by (simp add: AutoFixer_def Let_def built_by_AutoFixer_def in_range_def)
next
  case (accepted this gs item this')
  then show ?case using applyFix_keeps_range by blast
next
  case (not_accepted this gs item this' r)
  then show ?case using applyFix_keeps_range by blast
next
  case (was_reset this gs)
  then show ?case by (simp add: reset_def built_by_AutoFixer_def in_range_def)
next
  case (result_rendered this gs)
  then show ?case
    by (simp add: fst_getResult built_by_AutoFixer_def in_range_def set_sort_replacements)
next
  case (snippet_rendered this gs)
  then show ?case
    by (simp add: fst_getSnippet built_by_AutoFixer_def in_range_def set_sort_replacements)
qed

subsection \<open>The length of the rendered text\<close>

lemma length_substring_split:
  "length (substring s 0 x) + length (substring_from s x) = length s"
  by (auto simp: substring_def substring_from_def clamp_def Let_def min_def max_def)

lemma length_substring_prefix:
  "0 \<le> a \<Longrightarrow> a \<le> int (length s) \<Longrightarrow> int (length (substring s 0 a)) = a"
  by (auto simp: substring_def clamp_def Let_def min_def max_def)

lemma length_substring_from:
  "0 \<le> b \<Longrightarrow> b \<le> int (length s) \<Longrightarrow> int (length (substring_from s b)) = int (length s) - b"
  by (auto simp: substring_def substring_from_def clamp_def Let_def min_def max_def)

lemma length_substring_range:
  "0 \<le> a \<Longrightarrow> a \<le> b \<Longrightarrow> b \<le> int (length s) \<Longrightarrow> int (length (substring s a b)) = b - a"
  by (auto simp: substring_def clamp_def Let_def min_def max_def)

lemma sum_list_filter_split:
  fixes f :: "'a \<Rightarrow> int"
  shows "sum_list (map f xs) =
         sum_list (map f (filter P xs)) + sum_list (map f (filter (\<lambda>x. \<not> P x) xs))"
  by (induction xs) auto

lemma packing:
  assumes "a \<le> b"
    and "\<forall>c \<in> set cs. a \<le> c_start c \<and> c_start c \<le> c_end c \<and> c_end c \<le> b"
    and "sorted_wrt (\<lambda>x y. \<not> overlaps x y) cs"
  shows "sum_list (map (\<lambda>c. c_end c - c_start c) cs) \<le> b - a"
  using assms
proof (induction cs arbitrary: a b rule: length_induct)
  case (1 cs)
  show ?case
  proof (cases cs)
    case Nil
    then show ?thesis using "1.prems"(1) by simp
  next
    case (Cons c rest)
    let ?span = "\<lambda>c. c_end c - c_start c"
    let ?L = "filter (\<lambda>d. c_end d \<le> c_start c) rest"
    let ?R = "filter (\<lambda>d. \<not> c_end d \<le> c_start c) rest"
    have c: "a \<le> c_start c" "c_start c \<le> c_end c" "c_end c \<le> b"
      using "1.prems"(2) Cons by auto
    have rest: "\<forall>d \<in> set rest. a \<le> c_start d \<and> c_start d \<le> c_end d \<and> c_end d \<le> b"
      using "1.prems"(2) Cons by auto
    have srest: "sorted_wrt (\<lambda>x y. \<not> overlaps x y) rest"
      and no: "\<forall>d \<in> set rest. \<not> overlaps c d"
      using "1.prems"(3) Cons by auto
    show ?thesis
    proof (cases "c_start c = c_end c")
      case True
      have "length rest < length cs" using Cons by simp
      then have "sum_list (map ?span rest) \<le> b - a"
        using "1.IH" "1.prems"(1) rest srest by blast
      then show ?thesis using Cons True by simp
    next
      case False
      then have lt: "c_start c < c_end c" using c by simp
      have lenL: "length ?L < length cs" and lenR: "length ?R < length cs"
        using Cons by (auto simp: less_Suc_eq_le)
      have inL: "\<forall>d \<in> set ?L. a \<le> c_start d \<and> c_start d \<le> c_end d \<and> c_end d \<le> c_start c"
        using rest by auto
      have inR: "\<forall>d \<in> set ?R. c_end c \<le> c_start d \<and> c_start d \<le> c_end d \<and> c_end d \<le> b"
        using rest no by (auto simp: overlaps_def)
      have sL: "sorted_wrt (\<lambda>x y. \<not> overlaps x y) ?L"
        and sR: "sorted_wrt (\<lambda>x y. \<not> overlaps x y) ?R"
        using srest by (auto intro: sorted_wrt_filter)
      have L: "sum_list (map ?span ?L) \<le> c_start c - a"
        using "1.IH" lenL c(1) inL sL by blast
      have R: "sum_list (map ?span ?R) \<le> b - c_end c"
        using "1.IH" lenR c(3) inR sR by blast
      have "sum_list (map ?span rest) = sum_list (map ?span ?L) + sum_list (map ?span ?R)"
        by (rule sum_list_filter_split)
      then show ?thesis using L R Cons by simp
    qed
  qed
qed

lemma net_growth_lower:
  "- sum_list (map (\<lambda>c. c_end c - c_start c) cs) \<le> sum_list (map net_growth cs)"
  by (induction cs) (auto simp: net_growth_def)

lemma shift_snoc:
  "shift (prev @ [k]) q = shift prev q + (if anchor k \<le> q then net_growth k else 0)"
  by (simp add: shift_def)

lemma shift_lower:
  assumes k: "in_text n k" "c_start k < c_end k"
    and wf: "\<forall>c \<in> set prev. in_text n c"
    and disj: "sorted_wrt (\<lambda>a b. \<not> overlaps a b) prev"
    and dk: "\<forall>c \<in> set prev. \<not> overlaps c k"
  shows "- c_start k \<le> shift prev (c_start k)"
proof -
  let ?L = "filter (\<lambda>c. anchor c \<le> c_start k) prev"
  have inL: "\<forall>c \<in> set ?L. 0 \<le> c_start c \<and> c_start c \<le> c_end c \<and> c_end c \<le> c_start k"
  proof
    fix c assume cL: "c \<in> set ?L"
    then have c: "c \<in> set prev" "anchor c \<le> c_start k" by auto
    have w: "0 \<le> c_start c" "c_start c \<le> c_end c" using wf c(1) by (auto simp: in_text_def)
    have "\<not> overlaps c k" using dk c(1) by blast
    then have "c_end c \<le> c_start k"
      using c(2) k(2) w by (auto simp: overlaps_def anchor_def split: if_splits)
    then show "0 \<le> c_start c \<and> c_start c \<le> c_end c \<and> c_end c \<le> c_start k"
      using w by simp
  qed
  have sL: "sorted_wrt (\<lambda>a b. \<not> overlaps a b) ?L"
    using disj by (rule sorted_wrt_filter)
  have "0 \<le> c_start k" using k(1) by (simp add: in_text_def)
  from packing [OF this inL sL]
  have "sum_list (map (\<lambda>c. c_end c - c_start c) ?L) \<le> c_start k" by simp
  then show ?thesis
    using net_growth_lower [of ?L] by (simp add: shift_def)
qed

lemma shift_upper:
  assumes k: "in_text n k" "c_start k < c_end k"
    and wf: "\<forall>c \<in> set prev. in_text n c"
    and disj: "sorted_wrt (\<lambda>a b. \<not> overlaps a b) prev"
    and dk: "\<forall>c \<in> set prev. \<not> overlaps c k"
  shows "c_end k + shift prev (c_end k) \<le> n + sum_list (map net_growth prev)"
proof -
  let ?R = "filter (\<lambda>c. \<not> anchor c \<le> c_end k) prev"
  have inR: "\<forall>c \<in> set ?R. c_end k \<le> c_start c \<and> c_start c \<le> c_end c \<and> c_end c \<le> n"
  proof
    fix c assume cR: "c \<in> set ?R"
    then have c: "c \<in> set prev" "\<not> anchor c \<le> c_end k" by auto
    have w: "c_start c \<le> c_end c" "c_end c \<le> n" using wf c(1) by (auto simp: in_text_def)
    have "\<not> overlaps c k" using dk c(1) by blast
    then have "c_end k \<le> c_start c"
      using c(2) k(2) w by (auto simp: overlaps_def anchor_def split: if_splits)
    then show "c_end k \<le> c_start c \<and> c_start c \<le> c_end c \<and> c_end c \<le> n"
      using w by simp
  qed
  have sR: "sorted_wrt (\<lambda>a b. \<not> overlaps a b) ?R"
    using disj by (rule sorted_wrt_filter)
  have "c_end k \<le> n" using k(1) by (simp add: in_text_def)
  from packing [OF this inR sR]
  have "sum_list (map (\<lambda>c. c_end c - c_start c) ?R) \<le> n - c_end k" by simp
  then have "- (n - c_end k) \<le> sum_list (map net_growth ?R)"
    using net_growth_lower [of ?R] by simp
  moreover have "sum_list (map net_growth prev) = shift prev (c_end k) + sum_list (map net_growth ?R)"
    unfolding shift_def by (rule sum_list_filter_split)
  ultimately show ?thesis by simp
qed

lemma shift_same:
  assumes "c_start k \<le> c_end k"
    and "\<forall>c \<in> set prev. \<not> (c_start k < anchor c \<and> anchor c \<le> c_end k)"
  shows "shift prev (c_end k) = shift prev (c_start k)"
proof -
  have "filter (\<lambda>c. anchor c \<le> c_end k) prev = filter (\<lambda>c. anchor c \<le> c_start k) prev"
    using assms by (intro filter_cong) auto
  then show ?thesis by (simp add: shift_def)
qed

lemma applyReplacement_step:
  assumes tree: "\<forall>q. tree_lookup tree q = shift prev q"
    and len: "int (length cur) = n + sum_list (map net_growth prev)"
    and k: "in_text n k" "c_point k = ''beforeStart'' \<or> c_point k = ''afterEnd''"
    and wf: "\<forall>c \<in> set prev. in_text n c"
    and disj: "sorted_wrt (\<lambda>a b. \<not> overlaps a b) prev"
    and dk: "\<forall>c \<in> set prev. \<not> overlaps c k"
    and clear: "\<forall>c \<in> set prev. \<not> (c_start k < anchor c \<and> anchor c \<le> c_end k)"
  shows "\<exists>cur' tree'. applyReplacement cur tree k = Inr (cur', tree') \<and>
           (\<forall>q. tree_lookup tree' q = shift (prev @ [k]) q) \<and>
           int (length cur') = n + sum_list (map net_growth (prev @ [k]))"
proof -
  define frm where "frm = c_start k + tree_lookup tree (c_start k)"
  define til where "til = c_end k + tree_lookup tree (c_end k)"
  define cur' where "cur' = substring cur 0 frm @ c_text k @ substring_from cur til"
  define tree' where "tree' = tree_insert tree (anchor k) (int (length (c_text k)) - (til - frm))"
  have se: "c_start k \<le> c_end k" using k(1) by (simp add: in_text_def)
  have same: "shift prev (c_end k) = shift prev (c_start k)"
    using shift_same [OF se clear] .
  have d: "til - frm = c_end k - c_start k"
    using same tree by (simp add: til_def frm_def)
  then have g: "int (length (c_text k)) - (til - frm) = net_growth k"
    by (simp add: net_growth_def)
  have run: "applyReplacement cur tree k = Inr (cur', tree')"
    using k(2)
    by (auto simp: applyReplacement_def Let_def cur'_def tree'_def anchor_def
        frm_def til_def)
  have t: "\<forall>q. tree_lookup tree' q = shift (prev @ [k]) q"
    using tree by (simp add: tree'_def g tree_lookup_insert shift_snoc)
  have cut: "int (length (substring cur 0 frm)) + int (length (substring_from cur til))
               = int (length cur) - (c_end k - c_start k)"
  proof (cases "c_start k = c_end k")
    case True
    then have "til = frm" using d by simp
    then show ?thesis
      using length_substring_split [of cur frm] True by simp
  next
    case False
    then have lt: "c_start k < c_end k" using se by simp
    have lo: "0 \<le> frm"
      using shift_lower [OF k(1) lt wf disj dk] tree by (simp add: frm_def)
    have hi: "til \<le> int (length cur)"
      using shift_upper [OF k(1) lt wf disj dk] tree len by (simp add: til_def)
    have le: "frm \<le> til" using d lt by simp
    have "int (length (substring cur 0 frm)) = frm"
      using lo le hi by (intro length_substring_prefix) auto
    moreover have "int (length (substring_from cur til)) = int (length cur) - til"
      using lo le hi by (intro length_substring_from) auto
    ultimately show ?thesis using d by simp
  qed
  have l: "int (length cur') = n + sum_list (map net_growth (prev @ [k]))"
    using cut len by (simp add: cur'_def net_growth_def)
  show ?thesis using run t l by blast
qed

lemma getResult_loop_length:
  assumes "\<forall>q. tree_lookup tree q = shift prev q"
    and "int (length cur) = n + sum_list (map net_growth prev)"
    and "\<forall>c \<in> set (prev @ todo). in_text n c"
    and "\<forall>c \<in> set todo. c_point c = ''beforeStart'' \<or> c_point c = ''afterEnd''"
    and "sorted_wrt (\<lambda>a b. \<not> overlaps a b) (prev @ todo)"
    and "anchors_clear (prev @ todo)"
  shows "\<exists>cur' tree'. getResult_loop cur tree todo = Inr (cur', tree') \<and>
           int (length cur') = n + sum_list (map net_growth (prev @ todo))"
  using assms
proof (induction todo arbitrary: cur tree prev)
  case Nil
  then show ?case by simp
next
  case (Cons k todo)
  have k: "in_text n k" "c_point k = ''beforeStart'' \<or> c_point k = ''afterEnd''"
    using Cons.prems(3,4) by auto
  have wf: "\<forall>c \<in> set prev. in_text n c" using Cons.prems(3) by auto
  have disj: "sorted_wrt (\<lambda>a b. \<not> overlaps a b) prev"
    and dk: "\<forall>c \<in> set prev. \<not> overlaps c k"
    using Cons.prems(5) by (auto simp: sorted_wrt_append)
  have clear: "\<forall>c \<in> set prev. \<not> (c_start k < anchor c \<and> anchor c \<le> c_end k)"
    using Cons.prems(6) by (auto simp: anchors_clear_def sorted_wrt_append)
  from applyReplacement_step [OF Cons.prems(1,2) k wf disj dk clear]
  obtain cur' tree' where
    run: "applyReplacement cur tree k = Inr (cur', tree')"
    and t: "\<forall>q. tree_lookup tree' q = shift (prev @ [k]) q"
    and l: "int (length cur') = n + sum_list (map net_growth (prev @ [k]))"
    by blast
  have "\<exists>cur'' tree''. getResult_loop cur' tree' todo = Inr (cur'', tree'') \<and>
          int (length cur'') = n + sum_list (map net_growth ((prev @ [k]) @ todo))"
    using Cons.prems(3,4,5,6) by (intro Cons.IH [OF t l]) auto
  then show ?case using run by simp
qed

lemma sum_list_map_mset:
  fixes f :: "'a \<Rightarrow> int"
  assumes "mset xs = mset ys"
  shows "sum_list (map f xs) = sum_list (map f ys)"
proof -
  have "sum_list (map f xs) = sum_mset (image_mset f (mset xs))"
    by (metis mset_map sum_mset_sum_list)
  also have "\<dots> = sum_mset (image_mset f (mset ys))" using assms by simp
  also have "\<dots> = sum_list (map f ys)"
    by (metis mset_map sum_mset_sum_list)
  finally show ?thesis .
qed

lemma mset_splice_order: "mset (splice_order this) = mset (f_replacements this)"
  by (simp add: splice_order_def mset_sort_replacements)

lemma well_formed_in_text: "well_formed file c \<Longrightarrow> in_text (int (length file)) c"
  by (simp add: well_formed_def in_text_def)

lemma length_change_net_growth: "well_formed file c \<Longrightarrow> length_change file c = net_growth c"
  by (simp add: well_formed_def length_change_def replaced_span_def net_growth_def
      length_substring_range)

lemma snd_getResult:
  "snd (getResult this) =
     (case getResult_loop (f_file this) PrefixSumTree (splice_order this) of
        Inl e \<Rightarrow> Inl e
      | Inr (res, tree) \<Rightarrow> Inr res)"
  by (simp add: getResult_def Let_def splice_order_def)

lemma length_law_well_formed:
  assumes wf: "\<forall>c \<in> set (f_replacements this). well_formed (f_file this) c"
    and disj: "pairwise_disjoint (f_replacements this)"
    and clear: "anchors_clear (splice_order this)"
  shows "length_law this"
proof -
  let ?n = "int (length (f_file this))"
  let ?order = "splice_order this"
  have s: "set ?order = set (f_replacements this)"
    using mset_splice_order [of this] by (metis set_mset_mset)
  have a1: "\<forall>q. tree_lookup PrefixSumTree q = shift [] q"
    by (simp add: tree_lookup_fresh shift_def)
  have a2: "int (length (f_file this)) = ?n + sum_list (map net_growth [])"
    by simp
  have a3: "\<forall>c \<in> set ([] @ ?order). in_text ?n c"
    using wf s by (auto intro: well_formed_in_text)
  have a4: "\<forall>c \<in> set ?order. c_point c = ''beforeStart'' \<or> c_point c = ''afterEnd''"
    using wf s by (auto simp: well_formed_def)
  have a5: "sorted_wrt (\<lambda>a b. \<not> overlaps a b) ([] @ ?order)"
    using disj pairwise_disjoint_mset [OF mset_splice_order, of this]
    by (simp add: pairwise_disjoint_def)
  have a6: "anchors_clear ([] @ ?order)" using clear by simp
  from getResult_loop_length [OF a1 a2 a3 a4 a5 a6]
  obtain res tree where
    run: "getResult_loop (f_file this) PrefixSumTree ?order = Inr (res, tree)"
    and len: "int (length res) = ?n + sum_list (map net_growth ?order)"
    by auto
  have "sum_list (map net_growth ?order) = sum_list (map net_growth (f_replacements this))"
    by (rule sum_list_map_mset) (rule mset_splice_order)
  also have "\<dots> = sum_list (map (length_change (f_file this)) (f_replacements this))"
    using wf by (intro arg_cong [where f = sum_list] map_cong) (auto simp: length_change_net_growth)
  finally have "int (length res) =
      ?n + sum_list (map (length_change (f_file this)) (f_replacements this))"
    using len by simp
  then show ?thesis
    using run by (simp add: length_law_def snd_getResult)
qed

text \<open>
  Claim C4, as the code has it. In a reachable state in which every accepted candidate
  has its start at or before its end and one of the two known insertion points, the
  accepted candidates are pairwise disjoint, and no candidate has its anchor (its
  start for \<^verbatim>\<open>beforeStart\<close>, its end plus one for \<^verbatim>\<open>afterEnd\<close>) inside \<open>(start, end]\<close> of a
  candidate that \<^verbatim>\<open>getResult\<close> splices after it, \<^verbatim>\<open>getResult\<close> returns a text, and its
  length is the length of the original text plus the sum over the accepted candidates
  of the length of the replacement text minus the length of the replaced span.
\<close>

theorem length_law_reachable:
  assumes r: "reach this gs"
    and ok: "\<forall>c \<in> set (f_replacements this).
               c_start c \<le> c_end c \<and> (c_point c = ''beforeStart'' \<or> c_point c = ''afterEnd'')"
    and disj: "pairwise_disjoint (f_replacements this)"
    and clear: "anchors_clear (splice_order this)"
  shows "length_law this"
proof -
  have "in_range this" using reach_in_range [OF r] by simp
  then have "\<forall>c \<in> set (f_replacements this). well_formed (f_file this) c"
    using ok by (auto simp: in_range_def well_formed_def)
  then show ?thesis using disj clear by (rule length_law_well_formed)
qed

lemma reach_abcdef_ordered:
  "\<exists>gs. reach abcdef_ordered_fixer gs"
proof -
  let ?i1 = "Some (Item None (Some [mk_replacement 1 3 1 6 5 ''beforeStart'' ''X'']))"
  let ?i2 = "Some (Item None (Some [mk_replacement 1 6 1 6 7 ''beforeStart'' ''yy'']))"
  let ?s1 = "fst (applyFix (AutoFixer ''abcdef'') ?i1)"
  have a1: "applyFix (AutoFixer ''abcdef'') ?i1 = (?s1, Inr True)" by code_simp
  have a2: "applyFix ?s1 ?i2 = (abcdef_ordered_fixer, Inr True)" by code_simp
  show ?thesis
    using reach.accepted [OF reach.accepted [OF reach.created a1] a2] by blast
qed

theorem length_law_reachable_witness:
  "snd (getResult abcdef_ordered_fixer) = Inr ''abXyyf'' \<and> length_law abcdef_ordered_fixer"
proof -
  obtain gs where h0: "reach abcdef_ordered_fixer gs"
    using reach_abcdef_ordered by blast
  have h1: "\<forall>c \<in> set (f_replacements abcdef_ordered_fixer).
              c_start c \<le> c_end c \<and> (c_point c = ''beforeStart'' \<or> c_point c = ''afterEnd'')"
    by code_simp
  have h2: "pairwise_disjoint (f_replacements abcdef_ordered_fixer)"
    by code_simp
  have h3: "anchors_clear (splice_order abcdef_ordered_fixer)"
    by code_simp
  have r: "snd (getResult abcdef_ordered_fixer) = Inr ''abXyyf''"
    by code_simp
  show ?thesis
    using length_law_reachable [OF h0 h1 h2 h3] r by simp
qed

lemma reach_abcdef_swallow:
  "reach abcdef_swallow_fixer [[mk_candidate 2 5 1 1 7 ''beforeStart'' ''X''],
                               [mk_candidate 5 5 1 1 5 ''beforeStart'' ''yy'']]"
proof -
  let ?i1 = "Some (Item None (Some [mk_replacement 1 3 1 6 7 ''beforeStart'' ''X'']))"
  let ?i2 = "Some (Item None (Some [mk_replacement 1 6 1 6 5 ''beforeStart'' ''yy'']))"
  have a1: "applyFix (AutoFixer ''abcdef'') ?i1 = (abcdef_fixer, Inr True)" by code_simp
  have a2: "applyFix abcdef_fixer ?i2 = (abcdef_swallow_fixer, Inr True)" by code_simp
  have d: "([] @ [drop (length (f_replacements (AutoFixer ''abcdef''))) (f_replacements abcdef_fixer)])
             @ [drop (length (f_replacements abcdef_fixer)) (f_replacements abcdef_swallow_fixer)]
           = [[mk_candidate 2 5 1 1 7 ''beforeStart'' ''X''],
              [mk_candidate 5 5 1 1 5 ''beforeStart'' ''yy'']]"
    by code_simp
  show ?thesis
    using reach.accepted [OF reach.accepted [OF reach.created a1] a2] unfolding d .
qed

theorem length_law_counterexample:
  "reach abcdef_swallow_fixer [[mk_candidate 2 5 1 1 7 ''beforeStart'' ''X''],
                               [mk_candidate 5 5 1 1 5 ''beforeStart'' ''yy'']] \<and>
   pairwise_disjoint (f_replacements abcdef_swallow_fixer) \<and>
   snd (getResult abcdef_swallow_fixer) = Inr ''abXf'' \<and>
   int (length (f_file abcdef_swallow_fixer)) +
     sum_list (map (length_change (f_file abcdef_swallow_fixer))
       (f_replacements abcdef_swallow_fixer)) = 6 \<and>
   \<not> length_law abcdef_swallow_fixer \<and>
   reach abc_twice_fixer [[mk_candidate 0 3 1 1 7 ''beforeStart'' ''x'',
                           mk_candidate 0 3 1 1 7 ''beforeStart'' ''y'']] \<and>
   snd (getResult abc_twice_fixer) = Inr ''x'' \<and>
   int (length (f_file abc_twice_fixer)) +
     sum_list (map (length_change (f_file abc_twice_fixer))
       (f_replacements abc_twice_fixer)) = - 1 \<and>
   \<not> length_law abc_twice_fixer"
proof -
  have "pairwise_disjoint (f_replacements abcdef_swallow_fixer)" by code_simp
  moreover have "snd (getResult abcdef_swallow_fixer) = Inr ''abXf''" by code_simp
  moreover have "int (length (f_file abcdef_swallow_fixer)) +
     sum_list (map (length_change (f_file abcdef_swallow_fixer))
       (f_replacements abcdef_swallow_fixer)) = 6" by code_simp
  moreover have "\<not> length_law abcdef_swallow_fixer" by code_simp
  moreover have "snd (getResult abc_twice_fixer) = Inr ''x''" by code_simp
  moreover have "int (length (f_file abc_twice_fixer)) +
     sum_list (map (length_change (f_file abc_twice_fixer))
       (f_replacements abc_twice_fixer)) = - 1" by code_simp
  moreover have "\<not> length_law abc_twice_fixer" by code_simp
  ultimately show ?thesis
    using reach_abcdef_swallow reach_abc_twice by blast
qed

subsection \<open>The cases of autofixTest\<close>

text \<open>
  What the model computes on the three cases of \<^verbatim>\<open>autofixTest\<close>. The second and the
  third give the text the test expects. On the first, \<^verbatim>\<open>getResult\<close> splices the
  candidate of precedence 5 before the two of precedence 7 and returns
  \<^verbatim>\<open>cd "$1 || exit"\<close>, where the test expects \<^verbatim>\<open>cd "$1" || exit\<close>.
\<close>

lemma autofixTest_first:
  "snd (getResult cd_fixer) = Inr (''cd '' @ [CHR 0x22] @ ''$1 || exit'' @ [CHR 0x22])"
  by code_simp

lemma autofixTest_second:
  "snd (getResult (fst (applyFixes
      (AutoFixer ([tab, tab] @ ''foo bar\<newline>'' @ [tab, tab] @ ''echo $var:'' @ [tab] @ ''$value''))
      [Some (Item (Some (Fix (Some [mk_replacement 2 33 2 33 7 ''afterEnd'' [CHR 0x22],
                                   mk_replacement 2 39 2 39 7 ''beforeStart'' [CHR 0x22]]))) None),
       Some (Item (Some (Fix (Some [mk_replacement 2 22 2 22 7 ''afterEnd'' [CHR 0x22],
                                   mk_replacement 2 26 2 26 7 ''beforeStart'' [CHR 0x22]]))) None)])))
   = Inr ([tab, tab] @ ''foo bar\<newline>'' @ [tab, tab] @ ''echo '' @ [CHR 0x22] @ ''$var''
          @ [CHR 0x22] @ '':'' @ [tab] @ [CHR 0x22] @ ''$value'' @ [CHR 0x22])"
  by code_simp

lemma autofixTest_third:
  "snd (getSnippet (fst (applyFix (AutoFixer ''foo\<newline>cd foo\<newline>bar\<newline>'')
      (Some (Item None (Some [mk_replacement 2 7 2 7 5 ''beforeStart'' '' || exit'']))))))
   = Inr ''cd foo || exit\<newline>''"
  by code_simp

end
